theory Spec2Isabelle
  imports Complex_Main "HOL-Library.Monad_Syntax"
begin

chapter \<open>The program\<close>

section \<open>JavaScript numbers\<close>

text \<open>
  Line numbers are JavaScript numbers, that is IEEE doubles.  In the functions modelled
  below they come from \<^verbatim>\<open>parseInt\<close> of a run of digits, from \<open>-1\<close>, and from
  sums, differences, \<^verbatim>\<open>Math.max\<close> and \<^verbatim>\<open>Math.min\<close> of such: they are doubles with
  an integer value, the two infinities, or NaN.  \<open>Fin n\<close> is the double whose value is
  the integer \<open>n\<close> (the two zeros behave alike in every operation used here and are both
  \<open>Fin 0\<close>).
\<close>

datatype jsnum = Fin int | PosInfinity | NegInfinity | NaN

text \<open>The number of binary digits of a positive integer.\<close>

function bitLength :: "int \<Rightarrow> nat" where
  "bitLength n = (if n \<le> 0 then 0 else Suc (bitLength (n div 2)))"
  by pat_completeness auto

termination bitLength
  by (relation "measure nat") auto

declare bitLength.simps [simp del]

text \<open>
  Rounding a non-negative integer to the nearest double, ties to the even significand:
  a double has 53 significant binary digits, so a number of more digits is rounded to a
  multiple of \<open>2 ^ (digits - 53)\<close>.
\<close>

definition roundMagnitude :: "int \<Rightarrow> int" where
  "roundMagnitude n =
     (let k = bitLength n in
      if k \<le> 53 then n
      else
        let sh = k - 53;
            q = n div 2 ^ sh;
            r = n mod 2 ^ sh;
            half = 2 ^ (sh - 1);
            q' = (if r > half \<or> (r = half \<and> odd q) then q + 1 else q)
        in q' * 2 ^ sh)"

text \<open>The double for an integer: the rounded value, and an infinity from \<open>2 ^ 1024\<close>
  on.\<close>

definition toDouble :: "int \<Rightarrow> jsnum" where
  "toDouble i =
     (let m = roundMagnitude \<bar>i\<bar> in
      if m \<ge> 2 ^ 1024 then (if i < 0 then NegInfinity else PosInfinity)
      else Fin (if i < 0 then - m else m))"

text \<open>\<open>a + b\<close>, \<open>-a\<close> and \<open>a - b\<close>: the exact result, rounded.\<close>

fun jsAdd :: "jsnum \<Rightarrow> jsnum \<Rightarrow> jsnum" where
  "jsAdd (Fin a) (Fin b) = toDouble (a + b)"
| "jsAdd NaN b = NaN"
| "jsAdd a NaN = NaN"
| "jsAdd PosInfinity NegInfinity = NaN"
| "jsAdd NegInfinity PosInfinity = NaN"
| "jsAdd PosInfinity b = PosInfinity"
| "jsAdd a PosInfinity = PosInfinity"
| "jsAdd NegInfinity b = NegInfinity"
| "jsAdd a NegInfinity = NegInfinity"

fun jsNeg :: "jsnum \<Rightarrow> jsnum" where
  "jsNeg (Fin a) = Fin (- a)"
| "jsNeg PosInfinity = NegInfinity"
| "jsNeg NegInfinity = PosInfinity"
| "jsNeg NaN = NaN"

definition jsSub :: "jsnum \<Rightarrow> jsnum \<Rightarrow> jsnum" where
  "jsSub a b = jsAdd a (jsNeg b)"

text \<open>\<open>a < b\<close>, false when either side is NaN; \<open>a > b\<close> is \<open>b < a\<close> and
  \<open>a <= b\<close> is \<open>a < b\<close> or \<open>a === b\<close>.\<close>

fun jsLess :: "jsnum \<Rightarrow> jsnum \<Rightarrow> bool" where
  "jsLess (Fin a) (Fin b) = (a < b)"
| "jsLess NaN b = False"
| "jsLess a NaN = False"
| "jsLess a NegInfinity = False"
| "jsLess PosInfinity b = False"
| "jsLess NegInfinity b = True"
| "jsLess a PosInfinity = True"

text \<open>\<open>a === b\<close> on numbers: NaN equals nothing.\<close>

definition jsEq :: "jsnum \<Rightarrow> jsnum \<Rightarrow> bool" where
  "jsEq a b = (a \<noteq> NaN \<and> a = b)"

definition jsLessEq :: "jsnum \<Rightarrow> jsnum \<Rightarrow> bool" where
  "jsLessEq a b = (jsLess a b \<or> jsEq a b)"

text \<open>\<^verbatim>\<open>Math.max(a, b)\<close> and \<^verbatim>\<open>Math.min(a, b)\<close>: NaN when either argument is.\<close>

definition jsMax :: "jsnum \<Rightarrow> jsnum \<Rightarrow> jsnum" where
  "jsMax a b = (if a = NaN \<or> b = NaN then NaN else if jsLess a b then b else a)"

definition jsMin :: "jsnum \<Rightarrow> jsnum \<Rightarrow> jsnum" where
  "jsMin a b = (if a = NaN \<or> b = NaN then NaN else if jsLess b a then b else a)"

subsection \<open>Numbers as strings\<close>

text \<open>The decimal digits of a non-negative integer.\<close>

function decimal :: "int \<Rightarrow> string" where
  "decimal n =
     (if n < 10 then [char_of (48 + n)]
      else decimal (n div 10) @ [char_of (48 + n mod 10)])"
  by pat_completeness auto

termination decimal
  by (relation "measure nat") auto

declare decimal.simps [simp del]

text \<open>
  A template literal \<^verbatim>\<open>${x}\<close> applies Number::toString.  For a positive double \<open>x\<close>
  it takes the decimal number of fewest significant digits \<open>k\<close> that still rounds to
  \<open>x\<close>, and among those of \<open>k\<close> digits the one closest to \<open>x\<close> (the even one in a
  tie).  \<open>shortestAt x k\<close> is that number when there is one of \<open>k\<close> digits: of the
  numbers of \<open>k\<close> digits followed by zeros, only the two around \<open>x\<close> can be it.
\<close>

definition roundsTo :: "int \<Rightarrow> int \<Rightarrow> bool" where
  "roundsTo v x = (toDouble v = Fin x)"

definition shortestAt :: "int \<Rightarrow> nat \<Rightarrow> int option" where
  "shortestAt x k =
     (let m = length (decimal x) - k;
          lo = x div 10 ^ m;
          hi = lo + 1;
          vlo = lo * 10 ^ m;
          vhi = hi * 10 ^ m
      in if roundsTo vlo x \<and> roundsTo vhi x then
           (if x - vlo < vhi - x then Some vlo
            else if vhi - x < x - vlo then Some vhi
            else if even lo then Some vlo else Some vhi)
         else if roundsTo vlo x then Some vlo
         else if roundsTo vhi x then Some vhi
         else None)"

text \<open>The first success for \<open>k = 1, 2, \<dots>\<close>; with as many digits as \<open>x\<close> has, \<open>x\<close>
  itself succeeds.\<close>

definition shortestDecimal :: "int \<Rightarrow> int" where
  "shortestDecimal x =
     (case List.map_filter (shortestAt x) [1 ..< Suc (length (decimal x))] of
        [] \<Rightarrow> x
      | v # vs \<Rightarrow> v)"

definition stripZeros :: "string \<Rightarrow> string" where
  "stripZeros ds = rev (dropWhile (\<lambda>c. c = CHR ''0'') (rev ds))"

text \<open>The digits are written out in full up to 21 of them, and in exponent form
  beyond.  The argument is not negative.\<close>

definition magnitudeToString :: "int \<Rightarrow> string" where
  "magnitudeToString x =
     (let ds = decimal (shortestDecimal x);
          n = length ds;
          sig = stripZeros ds
      in if n \<le> 21 then ds
         else if length sig = 1 then sig @ ''e+'' @ decimal (int n - 1)
         else [hd sig] @ ''.'' @ tl sig @ ''e+'' @ decimal (int n - 1))"

fun numToString :: "jsnum \<Rightarrow> string" where
  "numToString NaN = ''NaN''"
| "numToString PosInfinity = ''Infinity''"
| "numToString NegInfinity = ''-Infinity''"
| "numToString (Fin i) =
     (if i < 0 then ''-'' @ magnitudeToString (- i) else magnitudeToString i)"


section \<open>Review state (review-state.ts)\<close>

text \<open>
  The resumable review state of the reviewer.  Timestamps come from
  \<^verbatim>\<open>new Date().toISOString()\<close>; the clock is an effect, so every operation that
  reads it takes the string it read as an argument.  Counters are JavaScript numbers
  holding small integers and are modelled as \<^typ>\<open>int\<close>.  An optional property
  (\<^verbatim>\<open>error?: string\<close>) is an \<^typ>\<open>'a option\<close>, with \<^const>\<open>None\<close> for
  \<^verbatim>\<open>undefined\<close>.
\<close>

datatype FileStatus =
  Pending | Summarizing | Summarized | Reviewing | Reviewed | Failed | Skipped

record FileReviewStatus =
  filename :: string
  status :: FileStatus
  error :: "string option"
  updatedAt :: string
  skipConfidence :: "int option"
  skipReason :: "string option"

datatype Phase = PhaseSummarizing | PhaseReviewing

datatype LastErrorType = rate_limit | timeout | network | api_error | unknown

record LastError =
  message :: string
  timestamp :: string
  type :: LastErrorType

record ReviewState =
  version :: string
  startedAt :: string
  updatedAt :: string
  commitId :: string
  totalFiles :: int
  completedFiles :: int
  failedFiles :: int
  skippedFiles :: int
  phase :: Phase
  files :: "FileReviewStatus list"
  lastError :: "LastError option"

text \<open>The optional fourth argument of \<^verbatim>\<open>updateFileStatus\<close>.\<close>

record StatusOptions =
  optError :: "string option"
  optSkipConfidence :: "int option"
  optSkipReason :: "string option"

datatype state_error = FileNotFound string

text \<open>\<^verbatim>\<open>Array.prototype.findIndex\<close>: the first index whose element satisfies the
  predicate, and \<open>-1\<close> when there is none.\<close>

fun findIndex :: "('a \<Rightarrow> bool) \<Rightarrow> 'a list \<Rightarrow> int" where
  "findIndex P [] = -1"
| "findIndex P (x # xs) =
     (if P x then 0 else (let i = findIndex P xs in if i = -1 then -1 else i + 1))"

definition createReviewState :: "string \<Rightarrow> string \<Rightarrow> string list \<Rightarrow> ReviewState" where
  "createReviewState now cid fs =
     \<lparr> version = ''1.0'',
       startedAt = now,
       updatedAt = now,
       commitId = cid,
       totalFiles = int (length fs),
       completedFiles = 0,
       failedFiles = 0,
       skippedFiles = 0,
       phase = PhaseSummarizing,
       files = map (\<lambda>f. \<lparr> filename = f, status = Pending, error = None,
                             updatedAt = now, skipConfidence = None,
                             skipReason = None \<rparr>) fs,
       lastError = None \<rparr>"

text \<open>The three deltas of \<^verbatim>\<open>updateFileStatus\<close>: each starts at 0, is decremented for
  the old status and incremented for the new one.\<close>

definition completedDelta :: "FileStatus \<Rightarrow> FileStatus \<Rightarrow> int" where
  "completedDelta oldStatus newStatus =
     (let d = 0;
          d = (if oldStatus = Reviewed \<or> oldStatus = Skipped then d - 1 else d);
          d = (if newStatus = Reviewed \<or> newStatus = Skipped then d + 1 else d)
      in d)"

definition failedDelta :: "FileStatus \<Rightarrow> FileStatus \<Rightarrow> int" where
  "failedDelta oldStatus newStatus =
     (let d = 0;
          d = (if oldStatus = Failed then d - 1 else d);
          d = (if newStatus = Failed then d + 1 else d)
      in d)"

definition skippedDelta :: "FileStatus \<Rightarrow> FileStatus \<Rightarrow> int" where
  "skippedDelta oldStatus newStatus =
     (let d = 0;
          d = (if oldStatus = Skipped then d - 1 else d);
          d = (if newStatus = Skipped then d + 1 else d)
      in d)"

text \<open>\<^verbatim>\<open>options?.error\<close> is \<^verbatim>\<open>undefined\<close> when no options object is passed.\<close>

definition optField :: "(StatusOptions \<Rightarrow> 'a option) \<Rightarrow> StatusOptions option \<Rightarrow> 'a option" where
  "optField sel opts = (case opts of None \<Rightarrow> None | Some r \<Rightarrow> sel r)"

definition updateFileStatus ::
  "string \<Rightarrow> ReviewState \<Rightarrow> string \<Rightarrow> FileStatus \<Rightarrow> StatusOptions option
     \<Rightarrow> state_error + ReviewState" where
  "updateFileStatus now state fname newStatus opts =
     (let fileIndex = findIndex (\<lambda>f. filename f = fname) (files state) in
      if fileIndex = -1 then Inl (FileNotFound fname)
      else
        let i = nat fileIndex;
            oldStatus = status (files state ! i);
            newFiles = (files state)[i := (files state ! i)
                          \<lparr> status := newStatus,
                            FileReviewStatus.updatedAt := now,
                            error := optField optError opts,
                            skipConfidence := optField optSkipConfidence opts,
                            skipReason := optField optSkipReason opts \<rparr>]
        in Inr (state
              \<lparr> updatedAt := now,
                files := newFiles,
                completedFiles := max 0 (completedFiles state + completedDelta oldStatus newStatus),
                failedFiles := max 0 (failedFiles state + failedDelta oldStatus newStatus),
                skippedFiles := max 0 (skippedFiles state + skippedDelta oldStatus newStatus) \<rparr>))"

definition updatePhase :: "string \<Rightarrow> ReviewState \<Rightarrow> Phase \<Rightarrow> ReviewState" where
  "updatePhase now state p = state \<lparr> phase := p, updatedAt := now \<rparr>"

text \<open>\<^verbatim>\<open>recordError\<close> reads the clock twice.\<close>

definition recordError ::
  "string \<Rightarrow> string \<Rightarrow> ReviewState \<Rightarrow> string \<Rightarrow> LastErrorType \<Rightarrow> ReviewState" where
  "recordError now1 now2 state err ty =
     state \<lparr> updatedAt := now1,
             lastError := Some \<lparr> message = err, timestamp = now2, type = ty \<rparr> \<rparr>"

text \<open>The states a run can be in: built by \<^const>\<open>createReviewState\<close> and changed only by
  a successful \<^const>\<open>updateFileStatus\<close>, by \<^const>\<open>updatePhase\<close> and by
  \<^const>\<open>recordError\<close>.\<close>

inductive reachable :: "string \<Rightarrow> string list \<Rightarrow> ReviewState \<Rightarrow> bool"
  for cid :: string and fs :: "string list" where
  created: "reachable cid fs (createReviewState now cid fs)"
| file_updated:
    "reachable cid fs s \<Longrightarrow> updateFileStatus now s fname st opts = Inr s'
       \<Longrightarrow> reachable cid fs s'"
| phase_updated: "reachable cid fs s \<Longrightarrow> reachable cid fs (updatePhase now s p)"
| error_recorded: "reachable cid fs s \<Longrightarrow> reachable cid fs (recordError now1 now2 s err ty)"

text \<open>How many files of a list have a status in a given class.\<close>

definition countStatus :: "(FileStatus \<Rightarrow> bool) \<Rightarrow> FileReviewStatus list \<Rightarrow> int" where
  "countStatus P fl = int (length (filter (\<lambda>f. P (status f)) fl))"

definition isCompleted :: "FileStatus \<Rightarrow> bool" where
  "isCompleted st = (st = Reviewed \<or> st = Skipped)"

definition countersAgree :: "ReviewState \<Rightarrow> bool" where
  "countersAgree s =
     (completedFiles s = countStatus isCompleted (files s) \<and>
      failedFiles s = countStatus (\<lambda>st. st = Failed) (files s) \<and>
      skippedFiles s = countStatus (\<lambda>st. st = Skipped) (files s))"

text \<open>\<^verbatim>\<open>isSameReview\<close>: a \<^verbatim>\<open>null\<close> state is \<^const>\<open>None\<close>.  The two
  \<^verbatim>\<open>Set\<close>s of filenames are built from the lists; the loop over the first set
  returns false at the first filename the second set does not have, and true after
  the last.\<close>

definition isSameReview :: "ReviewState option \<Rightarrow> ReviewState option \<Rightarrow> bool" where
  "isSameReview state1 state2 =
     (case (state1, state2) of
        (Some s1, Some s2) \<Rightarrow>
          if commitId s1 \<noteq> commitId s2 then False
          else if length (files s1) \<noteq> length (files s2) then False
          else
            let files1 = set (map filename (files s1));
                files2 = set (map filename (files s2))
            in (\<forall>f \<in> files1. f \<in> files2)
      | _ \<Rightarrow> False)"

text \<open>A state in which the first file has failed with a stored error message.\<close>

definition failedExample :: ReviewState where
  "failedExample =
     \<lparr> version = ''1.0'', startedAt = ''t0'', updatedAt = ''t1'', commitId = ''abc123'',
       totalFiles = 2, completedFiles = 0, failedFiles = 1, skippedFiles = 0,
       phase = PhaseSummarizing,
       files = [\<lparr> filename = ''a.ts'', status = Failed, error = Some ''Rate limit exceeded'',
                   updatedAt = ''t1'', skipConfidence = None, skipReason = None \<rparr>,
                \<lparr> filename = ''b.ts'', status = Pending, error = None,
                   updatedAt = ''t0'', skipConfidence = None, skipReason = None \<rparr>],
       lastError = None \<rparr>"

section \<open>Retry policy (retry-logic.ts)\<close>

text \<open>
  Modelled from the spec: the type \<^verbatim>\<open>ErrorType\<close>, which \<^verbatim>\<open>retry-logic.ts\<close> imports
  from \<^verbatim>\<open>review-state\<close> and whose declaration is not among the sources.  The spec
  gives it as the closed set rate_limit, timeout, network, api_error, token_limit,
  unknown, the cases \<^verbatim>\<open>getRetryStrategy\<close> switches on.
\<close>

datatype ErrorType = RateLimit | Timeout | Network | ApiError | TokenLimit | Unknown

record RetryStrategy =
  maxAttempts :: int
  baseDelay :: int
  shouldRetry :: bool

text \<open>\<^verbatim>\<open>perErrorTypeMaxAttempts\<close> is an optional object with an optional number for
  each error type.\<close>

record RetryConfig =
  maxAttempts :: int
  perErrorTypeMaxAttempts :: "(ErrorType \<rightharpoonup> int) option"

fun getRetryStrategy :: "ErrorType \<Rightarrow> RetryStrategy" where
  "getRetryStrategy RateLimit = \<lparr> RetryStrategy.maxAttempts = 5, baseDelay = 5000, shouldRetry = True \<rparr>"
| "getRetryStrategy Timeout = \<lparr> RetryStrategy.maxAttempts = 3, baseDelay = 2000, shouldRetry = True \<rparr>"
| "getRetryStrategy Network = \<lparr> RetryStrategy.maxAttempts = 3, baseDelay = 2000, shouldRetry = True \<rparr>"
| "getRetryStrategy TokenLimit = \<lparr> RetryStrategy.maxAttempts = 0, baseDelay = 0, shouldRetry = False \<rparr>"
| "getRetryStrategy ApiError = \<lparr> RetryStrategy.maxAttempts = 2, baseDelay = 1000, shouldRetry = True \<rparr>"
| "getRetryStrategy Unknown = \<lparr> RetryStrategy.maxAttempts = 2, baseDelay = 1000, shouldRetry = True \<rparr>"

text \<open>\<^verbatim>\<open>config.perErrorTypeMaxAttempts?.[errorType] ?? config.maxAttempts\<close>: the global
  maximum stands in when the object or its entry for the error type is absent.\<close>

definition shouldRetry :: "int \<Rightarrow> ErrorType \<Rightarrow> RetryConfig \<Rightarrow> bool" where
  "shouldRetry currentAttempt errorType config =
     (let strategy = getRetryStrategy errorType in
      if \<not> RetryStrategy.shouldRetry strategy then False
      else
        let maxAttempts =
              (case perErrorTypeMaxAttempts config of
                 None \<Rightarrow> RetryConfig.maxAttempts config
               | Some per \<Rightarrow>
                   (case per errorType of
                      None \<Rightarrow> RetryConfig.maxAttempts config
                    | Some n \<Rightarrow> n))
        in currentAttempt < maxAttempts)"

text \<open>The configuration of the test suite: a global maximum of 5, with 10 for rate limits
  and 3 for timeouts.\<close>

definition customConfig :: RetryConfig where
  "customConfig =
     \<lparr> RetryConfig.maxAttempts = 5,
       perErrorTypeMaxAttempts = Some [RateLimit \<mapsto> 10, Timeout \<mapsto> 3] \<rparr>"


section \<open>Stored state (review-state.ts, deserializeState)\<close>

text \<open>
  The values \<^verbatim>\<open>JSON.parse\<close> returns.  A number is modelled by the rational it
  denotes: \<^verbatim>\<open>deserializeState\<close> asks of a number only whether it is zero.  An object
  is the list of its properties, a key occurring once.
\<close>

datatype json =
  JNull | JBool bool | JNumber rat | JString string
  | JArray "json list" | JObject "(string \<times> json) list"

datatype js_exception = SyntaxError | TypeError

text \<open>Reading a property: of \<^verbatim>\<open>null\<close> it throws a TypeError, of a value that has no
  such property it is \<^verbatim>\<open>undefined\<close> (\<^const>\<open>None\<close>).  Booleans, numbers, strings and
  arrays have none of the properties read here.\<close>

fun getProp :: "json \<Rightarrow> string \<Rightarrow> js_exception + json option" where
  "getProp JNull key = Inl TypeError"
| "getProp (JObject props) key = Inr (map_of props key)"
| "getProp v key = Inr None"

text \<open>JavaScript's truthiness, which \<^verbatim>\<open>!state.version\<close> negates.\<close>

fun truthy :: "json option \<Rightarrow> bool" where
  "truthy None = False"
| "truthy (Some JNull) = False"
| "truthy (Some (JBool b)) = b"
| "truthy (Some (JNumber n)) = (n \<noteq> 0)"
| "truthy (Some (JString s)) = (s \<noteq> [])"
| "truthy (Some (JArray xs)) = True"
| "truthy (Some (JObject props)) = True"

fun isArray :: "json option \<Rightarrow> bool" where
  "isArray (Some (JArray xs)) = True"
| "isArray v = False"

text \<open>The body of the \<^verbatim>\<open>try\<close> block.  \<^verbatim>\<open>JSON.parse\<close> is the runtime's and is a
  parameter: \<^const>\<open>None\<close> is its SyntaxError.  The four tests of the first \<^verbatim>\<open>if\<close>
  are evaluated left to right and stop at the first that holds.\<close>

definition tryBlock :: "(string \<Rightarrow> json option) \<Rightarrow> string \<Rightarrow> js_exception + json option" where
  "tryBlock JSON_parse json =
     (case JSON_parse json of
        None \<Rightarrow> Inl SyntaxError
      | Some state \<Rightarrow>
          (case getProp state ''version'' of
             Inl e \<Rightarrow> Inl e
           | Inr v \<Rightarrow>
               if \<not> truthy v then Inr None
               else (case getProp state ''startedAt'' of
                 Inl e \<Rightarrow> Inl e
               | Inr sa \<Rightarrow>
                   if \<not> truthy sa then Inr None
                   else (case getProp state ''commitId'' of
                     Inl e \<Rightarrow> Inl e
                   | Inr c \<Rightarrow>
                       if \<not> truthy c then Inr None
                       else (case getProp state ''files'' of
                         Inl e \<Rightarrow> Inl e
                       | Inr fl \<Rightarrow>
                           if \<not> isArray fl then Inr None
                           else (case getProp state ''version'' of
                             Inl e \<Rightarrow> Inl e
                           | Inr v' \<Rightarrow>
                               if v' \<noteq> Some (JString ''1.0'') then Inr None
                               else Inr (Some state)))))))"

text \<open>\<^verbatim>\<open>deserializeState\<close>: the \<^verbatim>\<open>catch\<close> turns every exception of the block into
  the result \<^verbatim>\<open>null\<close>.  The result type keeps the exception case, so that "never
  throws" is a statement about the function.\<close>

definition deserializeState ::
  "(string \<Rightarrow> json option) \<Rightarrow> string \<Rightarrow> js_exception + json option" where
  "deserializeState JSON_parse json =
     (case tryBlock JSON_parse json of
        Inl e \<Rightarrow> Inr None
      | Inr r \<Rightarrow> Inr r)"

text \<open>The spec's words: a parsed object has a property, or is missing it.\<close>

definition hasProp :: "json \<Rightarrow> string \<Rightarrow> bool" where
  "hasProp v key = (case v of JObject props \<Rightarrow> map_of props key \<noteq> None | _ \<Rightarrow> False)"

definition propOf :: "json \<Rightarrow> string \<Rightarrow> json option" where
  "propOf v key = (case v of JObject props \<Rightarrow> map_of props key | _ \<Rightarrow> None)"

text \<open>What the code accepts: version, startedAt and commitId are truthy, files is an
  array and version is the string 1.0.\<close>

definition validState :: "json \<Rightarrow> bool" where
  "validState v =
     (truthy (propOf v ''version'') \<and> truthy (propOf v ''startedAt'') \<and>
      truthy (propOf v ''commitId'') \<and> isArray (propOf v ''files'') \<and>
      propOf v ''version'' = Some (JString ''1.0''))"

text \<open>A stored state whose commit id is the empty string, and a parser that reads its
  text.\<close>

definition emptyCommitText :: string where
  \<open>emptyCommitText = ''{"version":"1.0","startedAt":"t0","commitId":"","files":[]}''\<close>

definition emptyCommitState :: json where
  "emptyCommitState =
     JObject [(''version'', JString ''1.0''), (''startedAt'', JString ''t0''),
              (''commitId'', JString []), (''files'', JArray [])]"

definition parseEmptyCommit :: "string \<Rightarrow> json option" where
  "parseEmptyCommit text = (if text = emptyCommitText then Some emptyCommitState else None)"


section \<open>Comment-to-patch mapper (review.ts, parseReview)\<close>

text \<open>A patch of a file is the triple of its new-hunk start line, its new-hunk end line
  and its rendered text.\<close>

type_synonym patch = "jsnum \<times> jsnum \<times> string"

record Review =
  startLine :: jsnum
  endLine :: jsnum
  comment :: string

text \<open>The four variables of the loop of \<^verbatim>\<open>findBestPatchMapping\<close>.\<close>

record PatchMapping =
  withinPatch :: bool
  bestPatchStartLine :: jsnum
  bestPatchEndLine :: jsnum
  maxIntersection :: jsnum

text \<open>The body of the loop for one patch, up to its last statement.\<close>

definition loopBody :: "jsnum \<Rightarrow> jsnum \<Rightarrow> patch \<Rightarrow> PatchMapping \<Rightarrow> PatchMapping" where
  "loopBody reviewStartLine reviewEndLine p m =
     (case p of (sl, el, text) \<Rightarrow>
        let intersectionStart = jsMax reviewStartLine sl;
            intersectionEnd = jsMin reviewEndLine el;
            intersectionLength =
              jsMax (Fin 0) (jsAdd (jsSub intersectionEnd intersectionStart) (Fin 1))
        in if jsLess (maxIntersection m) intersectionLength then
             \<lparr> withinPatch =
                 jsEq intersectionLength
                   (jsAdd (jsSub reviewEndLine reviewStartLine) (Fin 1)),
               bestPatchStartLine = sl,
               bestPatchEndLine = el,
               maxIntersection = intersectionLength \<rparr>
           else m)"

text \<open>The loop: the last statement of the body, \<^verbatim>\<open>if (withinPatch) break\<close>, leaves it
  as soon as \<^verbatim>\<open>withinPatch\<close> is true.\<close>

fun findBestLoop :: "jsnum \<Rightarrow> jsnum \<Rightarrow> patch list \<Rightarrow> PatchMapping \<Rightarrow> PatchMapping" where
  "findBestLoop reviewStartLine reviewEndLine [] m = m"
| "findBestLoop reviewStartLine reviewEndLine (p # rest) m =
     (let m' = loopBody reviewStartLine reviewEndLine p m in
      if withinPatch m' then m' else findBestLoop reviewStartLine reviewEndLine rest m')"

definition findBestPatchMapping :: "patch list \<Rightarrow> jsnum \<Rightarrow> jsnum \<Rightarrow> PatchMapping" where
  "findBestPatchMapping patches reviewStartLine reviewEndLine =
     findBestLoop reviewStartLine reviewEndLine patches
       \<lparr> withinPatch = False, bestPatchStartLine = Fin (-1), bestPatchEndLine = Fin (-1),
         maxIntersection = Fin 0 \<rparr>"

text \<open>The two notes \<^verbatim>\<open>mapReviewToPatch\<close> puts in front of a comment; both disclose the
  original lines and end with an empty line.\<close>

definition originalLines :: "jsnum \<Rightarrow> jsnum \<Rightarrow> string" where
  "originalLines s e =
     '' Original lines ['' @ numToString s @ ''-'' @ numToString e @ '']'' @ [CHR 0x0A, CHR 0x0A]"

definition greatestOverlapNote :: "jsnum \<Rightarrow> jsnum \<Rightarrow> string" where
  "greatestOverlapNote s e =
     ''> Note: This review was outside of the patch, so it was mapped to the patch with the greatest overlap.''
       @ originalLines s e"

definition noOverlapNote :: "jsnum \<Rightarrow> jsnum \<Rightarrow> string" where
  "noOverlapNote s e =
     ''> Note: This review was outside of the patch, but no patch was found that overlapped with it.''
       @ originalLines s e"

text \<open>\<^verbatim>\<open>mapReviewToPatch\<close> changes the review in place; the model returns the changed
  review.  \<^verbatim>\<open>patches[0][0]\<close> on an empty list reads a property of \<^verbatim>\<open>undefined\<close>
  and throws a TypeError.\<close>

definition mapReviewToPatch :: "patch list \<Rightarrow> Review \<Rightarrow> js_exception + Review" where
  "mapReviewToPatch patches review =
     (let m = findBestPatchMapping patches (startLine review) (endLine review) in
      if \<not> withinPatch m then
        if \<not> jsEq (bestPatchStartLine m) (Fin (-1)) \<and> \<not> jsEq (bestPatchEndLine m) (Fin (-1)) then
          Inr (review
                \<lparr> comment := greatestOverlapNote (startLine review) (endLine review) @ comment review,
                  startLine := bestPatchStartLine m,
                  endLine := bestPatchEndLine m \<rparr>)
        else
          (case patches of
             [] \<Rightarrow> Inl TypeError
           | (sl, el, text) # rest \<Rightarrow>
               Inr (review
                     \<lparr> comment := noOverlapNote (startLine review) (endLine review) @ comment review,
                       startLine := sl,
                       endLine := el \<rparr>))
      else Inr review)"

subsection \<open>Safe line numbers\<close>

text \<open>
  A line number is safe when it is an integer below \<open>2 ^ 53\<close> in size: up to there every
  integer is a double and the sums and differences the mapper forms are exact.  A patch
  and a review with safe line numbers are given by the integers; \<open>jsPatch\<close> and
  \<open>jsReview\<close> make the values the code receives.
\<close>

type_synonym linePatch = "int \<times> int \<times> string"

definition jsPatch :: "linePatch \<Rightarrow> patch" where
  "jsPatch p = (Fin (fst p), Fin (fst (snd p)), snd (snd p))"

definition jsReview :: "int \<Rightarrow> int \<Rightarrow> string \<Rightarrow> Review" where
  "jsReview s e c = \<lparr> startLine = Fin s, endLine = Fin e, comment = c \<rparr>"

text \<open>The hunk ranges the header parser produces from safe numbers: a start that is not
  negative and an end of at least \<open>-1\<close>.\<close>

definition safeHunk :: "linePatch \<Rightarrow> bool" where
  "safeHunk p = (0 \<le> fst p \<and> fst p < 2 ^ 53 \<and> -1 \<le> fst (snd p) \<and> fst (snd p) < 2 ^ 53)"

definition safeLine :: "int \<Rightarrow> bool" where
  "safeLine n = (0 \<le> n \<and> n < 2 ^ 53)"

text \<open>The spec's intersection of a range with a hunk:
  \<open>max(0, min(endLine, hunkEnd) - max(startLine, hunkStart) + 1)\<close>.\<close>

definition intersection :: "int \<Rightarrow> int \<Rightarrow> linePatch \<Rightarrow> int" where
  "intersection s e p = max 0 (min e (fst (snd p)) - max s (fst p) + 1)"

text \<open>
  The loop over integers, for the proofs: the same steps with exact arithmetic.  On safe
  line numbers the loop of the code computes the same values.
\<close>

record ExactMapping =
  xWithin :: bool
  xBestStart :: int
  xBestEnd :: int
  xMax :: int

definition exactLoopBody :: "int \<Rightarrow> int \<Rightarrow> linePatch \<Rightarrow> ExactMapping \<Rightarrow> ExactMapping" where
  "exactLoopBody s e p m =
     (if intersection s e p > xMax m then
        \<lparr> xWithin = (intersection s e p = e - s + 1),
          xBestStart = fst p, xBestEnd = fst (snd p),
          xMax = intersection s e p \<rparr>
      else m)"

fun exactFindBestLoop :: "int \<Rightarrow> int \<Rightarrow> linePatch list \<Rightarrow> ExactMapping \<Rightarrow> ExactMapping" where
  "exactFindBestLoop s e [] m = m"
| "exactFindBestLoop s e (p # rest) m =
     (let m' = exactLoopBody s e p m in
      if xWithin m' then m' else exactFindBestLoop s e rest m')"

definition jsMapping :: "ExactMapping \<Rightarrow> PatchMapping" where
  "jsMapping m =
     \<lparr> withinPatch = xWithin m, bestPatchStartLine = Fin (xBestStart m),
       bestPatchEndLine = Fin (xBestEnd m), maxIntersection = Fin (xMax m) \<rparr>"

text \<open>A file with two hunks, lines 1 to 10 and lines 20 to 30.\<close>

definition twoHunks :: "linePatch list" where
  "twoHunks = [(1, 10, ''first''), (20, 30, ''second'')]"

text \<open>A hunk of lines 1 to \<open>2 ^ 53\<close>.\<close>

definition hugeHunk :: "linePatch" where
  "hugeHunk = (1, 9007199254740992, ''huge'')"


section \<open>Token budget packer (review.ts, packPatchesIntoInputs)\<close>

text \<open>
  What \<^verbatim>\<open>packPatchesIntoInputs\<close> takes from its surroundings: the tokenizer
  \<^verbatim>\<open>getTokenCount\<close>, the request limit \<^verbatim>\<open>options.heavyTokenLimits.requestTokens\<close>,
  the pull request of the event (\<^const>\<open>None\<close> when \<^verbatim>\<open>context.payload.pull_request\<close> is
  null) and \<^verbatim>\<open>getCommentChainForPatch\<close>, which asks the source-control API for the
  comment threads of a line range and returns the empty string when there is none or the
  call fails.  All four are parameters of the model.
\<close>

record PackEnv =
  getTokenCount :: "string \<Rightarrow> int"
  requestTokens :: int
  pull_request :: "int option"
  getCommentChainForPatch :: "int \<Rightarrow> jsnum \<Rightarrow> jsnum \<Rightarrow> string"

text \<open>\<^verbatim>\<open>calculatePatchesToPack\<close> counts the patches that fit the request limit on top
  of the base tokens; the loop stops at the first patch that does not fit.\<close>

fun calculateLoop :: "PackEnv \<Rightarrow> patch list \<Rightarrow> int \<Rightarrow> int \<Rightarrow> int" where
  "calculateLoop env [] tokens patchesToPack = patchesToPack"
| "calculateLoop env (p # rest) tokens patchesToPack =
     (case p of (sl, el, patch) \<Rightarrow>
        let patchTokens = getTokenCount env patch in
        if tokens + patchTokens > requestTokens env then patchesToPack
        else calculateLoop env rest (tokens + patchTokens) (patchesToPack + 1))"

definition calculatePatchesToPack :: "PackEnv \<Rightarrow> patch list \<Rightarrow> int \<Rightarrow> int" where
  "calculatePatchesToPack env patches baseTokens = calculateLoop env patches baseTokens 0"

text \<open>The variables the loop changes: \<^verbatim>\<open>tokens\<close>, \<^verbatim>\<open>patchesPacked\<close> and the text
  \<^verbatim>\<open>ins.patches\<close>.\<close>

record PackState =
  tokens :: int
  patchesPacked :: int
  ins_patches :: string

definition newline :: string where
  "newline = [CHR 0x0A]"

definition fence :: string where
  "fence = [CHR 0x60, CHR 0x60, CHR 0x60]"

text \<open>The three template literals appended to \<^verbatim>\<open>ins.patches\<close>.\<close>

definition patchSection :: "string \<Rightarrow> string" where
  "patchSection patch = newline @ patch @ newline"

definition commentChainSection :: "string \<Rightarrow> string" where
  "commentChainSection commentChain =
     newline @ ''---comment_chains---'' @ newline @ fence @ newline
       @ commentChain @ newline @ fence @ newline"

definition endChangeSection :: string where
  "endChangeSection = newline @ ''---end_change_section---'' @ newline"

text \<open>The body of the loop after the \<^verbatim>\<open>break\<close> test, for one patch.  The branch for a
  comment chain over the limit is empty in the source (its only content is the comment
  \<^verbatim>\<open>// Skip comment chain if it exceeds token limit\<close>): the token count is left alone
  and \<^verbatim>\<open>commentChain\<close> keeps its value.\<close>

definition packBody :: "PackEnv \<Rightarrow> int \<Rightarrow> patch \<Rightarrow> PackState \<Rightarrow> PackState" where
  "packBody env pullNumber p st =
     (case p of (sl, el, patch) \<Rightarrow>
        let packed = patchesPacked st + 1;
            commentChain = getCommentChainForPatch env pullNumber sl el;
            commentChainTokens = getTokenCount env commentChain;
            tokens' =
              (if tokens st + commentChainTokens > requestTokens env then tokens st
               else tokens st + commentChainTokens);
            text1 = ins_patches st @ patchSection patch;
            text2 = (if commentChain \<noteq> [] then text1 @ commentChainSection commentChain
                     else text1);
            text3 = text2 @ endChangeSection
        in \<lparr> tokens = tokens', patchesPacked = packed, ins_patches = text3 \<rparr>)"

fun packLoop :: "PackEnv \<Rightarrow> int \<Rightarrow> int \<Rightarrow> patch list \<Rightarrow> PackState \<Rightarrow> PackState" where
  "packLoop env pullNumber patchesToPack [] st = st"
| "packLoop env pullNumber patchesToPack (p # rest) st =
     (if patchesPacked st \<ge> patchesToPack then st
      else packLoop env pullNumber patchesToPack rest (packBody env pullNumber p st))"

text \<open>\<^verbatim>\<open>packPatchesIntoInputs\<close> returns the number of patches packed and leaves the
  request body in \<^verbatim>\<open>ins.patches\<close>; the model returns both.\<close>

definition packPatchesIntoInputs ::
  "PackEnv \<Rightarrow> string \<Rightarrow> patch list \<Rightarrow> int \<Rightarrow> int \<Rightarrow> int \<times> string" where
  "packPatchesIntoInputs env insPatches patches patchesToPack baseTokens =
     (case pull_request env of
        None \<Rightarrow> (0, insPatches)
      | Some pullNumber \<Rightarrow>
          let st = packLoop env pullNumber patchesToPack patches
                     \<lparr> tokens = baseTokens, patchesPacked = 0, ins_patches = insPatches \<rparr>
          in (patchesPacked st, ins_patches st))"

text \<open>A run in which the thread of the only hunk does not fit: the tokenizer counts
  characters, the limit is 10 tokens, the prompt without patches has 8 base tokens, the
  hunk \<open>hu\<close> has 2 and the thread \<open>old thread\<close> has 10.\<close>

definition tightEnv :: PackEnv where
  "tightEnv =
     \<lparr> getTokenCount = (\<lambda>s. int (length s)),
       requestTokens = 10,
       pull_request = Some 7,
       getCommentChainForPatch = (\<lambda>pullNumber sl el. ''old thread'') \<rparr>"


section \<open>Patch decomposer (review.ts: splitPatch, patchStartEndLine, parsePatch)\<close>

text \<open>
  A JavaScript string is the list of its UTF-16 code units, here natural numbers; an
  index of the model is an index of the string.  \<open>ustr\<close> turns a literal into code
  units.
\<close>

type_synonym ustring = "nat list"

definition ustr :: "string \<Rightarrow> ustring" where
  "ustr s = map of_char s"

text \<open>The line terminators of a regular expression (LF, CR, U+2028, U+2029): \<open>^\<close> with
  the \<open>m\<close> flag holds after each of them, and \<open>.\<close> matches none of them.  \<open>\d\<close> is
  an ASCII digit.\<close>

definition isLineTerminator :: "nat \<Rightarrow> bool" where
  "isLineTerminator c = (c = 10 \<or> c = 13 \<or> c = 8232 \<or> c = 8233)"

definition isDigit :: "nat \<Rightarrow> bool" where
  "isDigit c = (48 \<le> c \<and> c \<le> 57)"

subsection \<open>The header pattern\<close>

text \<open>
  The pieces of \<^verbatim>\<open>@@ -(\d+),(\d+) \+(\d+),(\d+) @@\<close>, each a matcher that consumes a
  prefix of the input and returns the rest.  \<open>\d+\<close> is greedy; since the character
  after each \<open>\d+\<close> of the pattern is not a digit, giving digits back can never make
  the rest of the pattern match, so the matcher takes every digit.
\<close>

fun lit :: "ustring \<Rightarrow> ustring \<Rightarrow> ustring option" where
  "lit [] s = Some s"
| "lit (p # ps) [] = None"
| "lit (p # ps) (c # cs) = (if p = c then lit ps cs else None)"

definition digits :: "ustring \<Rightarrow> (ustring \<times> ustring) option" where
  "digits s =
     (let d = takeWhile isDigit s in
      if d = [] then None else Some (d, dropWhile isDigit s))"

text \<open>The capture groups 2 to 5 and the input left after the header.\<close>

definition matchHeader ::
  "ustring \<Rightarrow> (ustring \<times> ustring \<times> ustring \<times> ustring \<times> ustring) option" where
  "matchHeader s =
     do {
       s1 \<leftarrow> lit (ustr ''@@ -'') s;
       (g2, s2) \<leftarrow> digits s1;
       s3 \<leftarrow> lit (ustr '','') s2;
       (g3, s4) \<leftarrow> digits s3;
       s5 \<leftarrow> lit (ustr '' +'') s4;
       (g4, s6) \<leftarrow> digits s5;
       s7 \<leftarrow> lit (ustr '','') s6;
       (g5, s8) \<leftarrow> digits s7;
       s9 \<leftarrow> lit (ustr '' @@'') s8;
       Some (g2, g3, g4, g5, s9)
     }"

text \<open>\<open>^\<close> with the \<open>m\<close> flag at index \<open>i\<close>.\<close>

definition atLineStart :: "ustring \<Rightarrow> nat \<Rightarrow> bool" where
  "atLineStart s i = (i = 0 \<or> (i \<le> length s \<and> isLineTerminator (s ! (i - 1))))"

subsection \<open>splitPatch\<close>

text \<open>
  A match of \<^verbatim>\<open>/(^@@ -(\d+),(\d+) \+(\d+),(\d+) @@).*$/gm\<close> at index \<open>i\<close>: the header
  at a line start, then \<open>.*\<close> up to the next line terminator or the end, where \<open>$\<close>
  holds.  The result is the index where the match ends.
\<close>

definition matchAt :: "ustring \<Rightarrow> nat \<Rightarrow> nat option" where
  "matchAt s i =
     (if atLineStart s i then
        (case matchHeader (drop i s) of
           None \<Rightarrow> None
         | Some (g2, g3, g4, g5, rest) \<Rightarrow>
             Some (length s - length (dropWhile (\<lambda>c. \<not> isLineTerminator c) rest)))
      else None)"

text \<open>\<^verbatim>\<open>pattern.exec(patch)\<close> with the \<open>g\<close> flag: the first match at or after
  \<^verbatim>\<open>lastIndex\<close>, as its index and the new \<^verbatim>\<open>lastIndex\<close> (the end of the match);
  \<^const>\<open>None\<close> is \<^verbatim>\<open>null\<close>.\<close>

definition matchesFrom :: "ustring \<Rightarrow> nat \<Rightarrow> (nat \<times> nat) list" where
  "matchesFrom s lastIndex =
     List.map_filter (\<lambda>i. map_option (Pair i) (matchAt s i)) [lastIndex ..< Suc (length s)]"

definition exec :: "ustring \<Rightarrow> nat \<Rightarrow> (nat \<times> nat) option" where
  "exec s lastIndex = (case matchesFrom s lastIndex of [] \<Rightarrow> None | m # ms \<Rightarrow> Some m)"

text \<open>\<^verbatim>\<open>String.prototype.substring\<close>: both indices are clamped to the string and
  swapped when the first is the larger.\<close>

definition clampIndex :: "ustring \<Rightarrow> int \<Rightarrow> nat" where
  "clampIndex s i = nat (min (max i 0) (int (length s)))"

definition substring :: "ustring \<Rightarrow> int \<Rightarrow> int \<Rightarrow> ustring" where
  "substring s a b =
     (let lo = min (clampIndex s a) (clampIndex s b);
          hi = max (clampIndex s a) (clampIndex s b)
      in take (hi - lo) (drop lo s))"

definition substringFrom :: "ustring \<Rightarrow> int \<Rightarrow> ustring" where
  "substringFrom s a = substring s a (int (length s))"

text \<open>A match is not empty and ends inside the string, so \<^verbatim>\<open>lastIndex\<close> grows with
  every match: the loop of \<^verbatim>\<open>splitPatch\<close> terminates.\<close>

lemma lit_Some: "lit p s = Some r \<Longrightarrow> s = p @ r"
  by (induction p s rule: lit.induct) (auto split: if_splits)

lemma digits_Some:
  "digits s = Some (d, r) \<Longrightarrow> s = d @ r \<and> d \<noteq> [] \<and> (\<forall>c \<in> set d. isDigit c)"
  by (auto simp: digits_def Let_def split: if_splits dest: set_takeWhileD)

lemma isDigit_not_terminator: "isDigit c \<Longrightarrow> \<not> isLineTerminator c"
  by (auto simp: isDigit_def isLineTerminator_def)

lemma matchHeader_Some:
  assumes "matchHeader s = Some (g2, g3, g4, g5, r)"
  shows "\<exists>w. s = w @ r \<and> w \<noteq> [] \<and> (\<forall>c \<in> set w. \<not> isLineTerminator c)"
proof -
  from assms obtain s1 s2 s3 s4 s5 s6 s7 s8 where
    l1: "lit (ustr ''@@ -'') s = Some s1" and d1: "digits s1 = Some (g2, s2)"
    and l2: "lit (ustr '','') s2 = Some s3" and d2: "digits s3 = Some (g3, s4)"
    and l3: "lit (ustr '' +'') s4 = Some s5" and d3: "digits s5 = Some (g4, s6)"
    and l4: "lit (ustr '','') s6 = Some s7" and d4: "digits s7 = Some (g5, s8)"
    and l5: "lit (ustr '' @@'') s8 = Some r"
    by (auto simp: matchHeader_def split: Option.bind_splits)
  let ?w = "ustr ''@@ -'' @ g2 @ ustr '','' @ g3 @ ustr '' +'' @ g4 @ ustr '','' @ g5 @ ustr '' @@''"
  have "s = ?w @ r"
    using lit_Some [OF l1] lit_Some [OF l2] lit_Some [OF l3] lit_Some [OF l4] lit_Some [OF l5]
      digits_Some [OF d1] digits_Some [OF d2] digits_Some [OF d3] digits_Some [OF d4]
    by simp
  moreover have "?w \<noteq> []" by (simp add: ustr_def)
  moreover have "\<forall>c \<in> set ?w. \<not> isLineTerminator c"
  proof -
    have lits: "\<forall>c \<in> set (ustr ''@@ -'') \<union> set (ustr '','') \<union> set (ustr '' +'')
        \<union> set (ustr '' @@''). \<not> isLineTerminator c"
      by (simp add: ustr_def isLineTerminator_def)
    have grps: "\<forall>c \<in> set g2 \<union> set g3 \<union> set g4 \<union> set g5. \<not> isLineTerminator c"
      using digits_Some [OF d1] digits_Some [OF d2] digits_Some [OF d3] digits_Some [OF d4]
        isDigit_not_terminator by blast
    from lits grps show ?thesis
      unfolding set_append by blast
  qed
  ultimately show ?thesis by blast
qed

lemma matchAt_Some: "matchAt s i = Some e \<Longrightarrow> i < e \<and> e \<le> length s"
proof -
  assume m: "matchAt s i = Some e"
  then obtain g2 g3 g4 g5 r where
    h: "matchHeader (drop i s) = Some (g2, g3, g4, g5, r)"
    and e: "e = length s - length (dropWhile (\<lambda>c. \<not> isLineTerminator c) r)"
    by (auto simp: matchAt_def split: if_splits option.splits)
  from matchHeader_Some [OF h] obtain w where w: "drop i s = w @ r" "w \<noteq> []" by blast
  have "length (dropWhile (\<lambda>c. \<not> isLineTerminator c) r) \<le> length r"
    by (rule length_dropWhile_le)
  moreover from w have "length w + length r = length s - i" "0 < length w"
    by (metis length_append length_drop, simp)
  ultimately show ?thesis using e by linarith
qed

lemma exec_Some: "exec s k = Some (i, e) \<Longrightarrow> k \<le> i \<and> i < e \<and> e \<le> length s"
proof -
  assume "exec s k = Some (i, e)"
  then have "(i, e) \<in> set (matchesFrom s k)"
    by (auto simp: exec_def split: list.splits)
  then have "k \<le> i" "matchAt s i = Some e"
    by (auto simp: matchesFrom_def map_filter_def)
  with matchAt_Some show ?thesis by blast
qed

text \<open>The \<^verbatim>\<open>while\<close> loop of \<^verbatim>\<open>splitPatch\<close>, with the pattern's \<^verbatim>\<open>lastIndex\<close>
  and the variables \<^verbatim>\<open>last\<close> and \<^verbatim>\<open>result\<close> as arguments.\<close>

function splitLoop :: "ustring \<Rightarrow> nat \<Rightarrow> int \<Rightarrow> ustring list \<Rightarrow> int \<times> ustring list" where
  "splitLoop patch lastIndex last' result =
     (case exec patch lastIndex of
        None \<Rightarrow> (last', result)
      | Some (index, lastIndex') \<Rightarrow>
          if last' = -1 then splitLoop patch lastIndex' (int index) result
          else splitLoop patch lastIndex' (int index)
                 (result @ [substring patch last' (int index)]))"
  by pat_completeness auto

termination splitLoop
  by (relation "measure (\<lambda>(patch, lastIndex, last', result). Suc (length patch) - lastIndex)")
    (auto dest: exec_Some)

declare splitLoop.simps [simp del]

definition splitPatch :: "ustring option \<Rightarrow> ustring list" where
  "splitPatch patch =
     (case patch of
        None \<Rightarrow> []
      | Some p \<Rightarrow>
          (case splitLoop p 0 (-1) [] of
             (last', result) \<Rightarrow>
               if last' \<noteq> -1 then result @ [substringFrom p last'] else result))"

subsection \<open>patchStartEndLine\<close>

text \<open>The integer a run of ASCII digits denotes, and \<^verbatim>\<open>parseInt\<close> of the run: the
  double nearest to that integer, the integer itself up to \<open>2 ^ 53\<close>.  (Beyond 20
  significant digits the language lets an implementation replace the further digits by
  zeros before rounding; the model rounds the integer as it is.)\<close>

definition digitsValue :: "ustring \<Rightarrow> int" where
  "digitsValue ds = foldl (\<lambda>n c. 10 * n + (int c - 48)) 0 ds"

definition parseInt :: "ustring \<Rightarrow> jsnum" where
  "parseInt ds = toDouble (digitsValue ds)"

text \<open>The start and end line of the old and of the new hunk.\<close>

record HunkInfo =
  oldHunk :: "jsnum \<times> jsnum"
  newHunk :: "jsnum \<times> jsnum"

text \<open>The matches of \<^verbatim>\<open>/(^@@ -(\d+),(\d+) \+(\d+),(\d+) @@)/gm\<close> in a patch, in
  order; \<^verbatim>\<open>exec\<close> on the fresh pattern returns the first.\<close>

definition headerMatches ::
  "ustring \<Rightarrow> (ustring \<times> ustring \<times> ustring \<times> ustring \<times> ustring) list" where
  "headerMatches patch =
     List.map_filter
       (\<lambda>i. if atLineStart patch i then matchHeader (drop i patch) else None)
       [0 ..< Suc (length patch)]"

definition patchStartEndLine :: "ustring \<Rightarrow> HunkInfo option" where
  "patchStartEndLine patch =
     (case headerMatches patch of
        [] \<Rightarrow> None
      | (g2, g3, g4, g5, rest) # ms \<Rightarrow>
          let oldBegin = parseInt g2;
              oldDiff = parseInt g3;
              newBegin = parseInt g4;
              newDiff = parseInt g5
          in Some \<lparr> oldHunk = (oldBegin, jsSub (jsAdd oldBegin oldDiff) (Fin 1)),
                    newHunk = (newBegin, jsSub (jsAdd newBegin newDiff) (Fin 1)) \<rparr>)"

subsection \<open>parsePatch\<close>

text \<open>\<^verbatim>\<open>split('\n')\<close> and \<^verbatim>\<open>join('\n')\<close>.\<close>

fun splitNewline :: "ustring \<Rightarrow> ustring list" where
  "splitNewline [] = [[]]"
| "splitNewline (c # cs) =
     (if c = 10 then [] # splitNewline cs
      else (case splitNewline cs of
              [] \<Rightarrow> [[c]]
            | l # ls \<Rightarrow> (c # l) # ls))"

fun joinNewline :: "ustring list \<Rightarrow> ustring" where
  "joinNewline [] = []"
| "joinNewline [l] = l"
| "joinNewline (l # m # ls) = l @ [10] @ joinNewline (m # ls)"

definition startsWith :: "ustring \<Rightarrow> nat \<Rightarrow> bool" where
  "startsWith line c = (case line of [] \<Rightarrow> False | x # xs \<Rightarrow> x = c)"

definition plusSign :: nat where "plusSign = 43"

definition minusSign :: nat where "minusSign = 45"

text \<open>The template literal \<^verbatim>\<open>`${newLine}: ${text}`\<close>.\<close>

definition numbered :: "jsnum \<Rightarrow> ustring \<Rightarrow> ustring" where
  "numbered n text = ustr (numToString n) @ ustr '': '' @ text"

text \<open>The lines of the hunk's body: the lines after the first one, without the last line
  when that is empty.\<close>

definition bodyLines :: "ustring \<Rightarrow> ustring list" where
  "bodyLines patch =
     (let lines = drop 1 (splitNewline patch) in
      if lines \<noteq> [] \<and> last lines = [] then butlast lines else lines)"

text \<open>The variables of the loop over the lines.  \<^verbatim>\<open>currentLine\<close> counts the elements
  of an array, whose length is below \<open>2 ^ 32\<close>, and is an integer here; \<^verbatim>\<open>newLine\<close>
  starts at the number read from the header and is a double.\<close>

record RenderState =
  currentLine :: int
  newLine :: jsnum
  oldHunkLines :: "ustring list"
  newHunkLines :: "ustring list"

definition skipStart :: int where "skipStart = 3"

definition skipEnd :: int where "skipEnd = 3"

text \<open>The body of the loop for one line; \<open>n\<close> is \<^verbatim>\<open>lines.length\<close>.\<close>

definition renderLine :: "bool \<Rightarrow> int \<Rightarrow> RenderState \<Rightarrow> ustring \<Rightarrow> RenderState" where
  "renderLine removalOnly n st line =
     (let cur = currentLine st + 1 in
      if startsWith line minusSign then
        st \<lparr> currentLine := cur,
             oldHunkLines := oldHunkLines st @ [drop 1 line] \<rparr>
      else if startsWith line plusSign then
        st \<lparr> currentLine := cur,
             newHunkLines := newHunkLines st @ [numbered (newLine st) (drop 1 line)],
             newLine := jsAdd (newLine st) (Fin 1) \<rparr>
      else
        st \<lparr> currentLine := cur,
             oldHunkLines := oldHunkLines st @ [line],
             newHunkLines := newHunkLines st @
               [if removalOnly \<or> (cur > skipStart \<and> cur \<le> n - skipEnd)
                then numbered (newLine st) line else line],
             newLine := jsAdd (newLine st) (Fin 1) \<rparr>)"

text \<open>\<^verbatim>\<open>parsePatch\<close> returns the texts \<^verbatim>\<open>oldHunk\<close> and \<^verbatim>\<open>newHunk\<close>, here as a
  pair in this order, or \<^verbatim>\<open>null\<close> when the patch has no header.\<close>

definition parsePatch :: "ustring \<Rightarrow> (ustring \<times> ustring) option" where
  "parsePatch patch =
     (case patchStartEndLine patch of
        None \<Rightarrow> None
      | Some hunkInfo \<Rightarrow>
          let lines = bodyLines patch;
              removalOnly = \<not> list_ex (\<lambda>line. startsWith line plusSign) lines;
              st = foldl (renderLine removalOnly (int (length lines)))
                     \<lparr> currentLine = 0, newLine = fst (newHunk hunkInfo),
                       oldHunkLines = [], newHunkLines = [] \<rparr>
                     lines
          in Some (joinNewline (oldHunkLines st), joinNewline (newHunkLines st)))"

subsection \<open>The rendering, line by line\<close>

text \<open>The added and context lines of a hunk body, each with its 1-based position in the
  body: the lines that reach the new text.\<close>

definition keptLines :: "ustring list \<Rightarrow> (nat \<times> ustring) list" where
  "keptLines body =
     filter (\<lambda>(pos, line). \<not> startsWith line minusSign) (zip [1 ..< Suc (length body)] body)"

text \<open>The entry of the new text for the \<open>j\<close>-th such line (counted from 0): its number
  is the integer \<open>newStart + j\<close>.  An added line is numbered; a context line is numbered when the
  hunk is removal-only or its position is after the first 3 and before the last 3 of the
  \<open>n\<close> body lines.\<close>

definition renderNew :: "bool \<Rightarrow> nat \<Rightarrow> int \<Rightarrow> nat \<times> nat \<times> ustring \<Rightarrow> ustring" where
  "renderNew removalOnly n newStart e =
     (case e of (j, pos, line) \<Rightarrow>
        if startsWith line plusSign then numbered (Fin (newStart + int j)) (drop 1 line)
        else if removalOnly \<or> (3 < pos \<and> int pos \<le> int n - 3)
          then numbered (Fin (newStart + int j)) line
        else line)"

definition expectedNew :: "bool \<Rightarrow> nat \<Rightarrow> int \<Rightarrow> ustring list \<Rightarrow> ustring list" where
  "expectedNew removalOnly n newStart body =
     map (renderNew removalOnly n newStart) (enumerate 0 (keptLines body))"

text \<open>The old text: the removed lines without their sign and the context lines as they
  are, no line numbered.\<close>

definition expectedOld :: "ustring list \<Rightarrow> ustring list" where
  "expectedOld body =
     map (\<lambda>line. if startsWith line minusSign then drop 1 line else line)
       (filter (\<lambda>line. startsWith line minusSign \<or> \<not> startsWith line plusSign) body)"

text \<open>A hunk with three lines of context on each side of one removed and one added
  line, for lines 3 and following of the old file and lines 5 and following of the new
  file.\<close>

definition sampleHunk :: ustring where
  "sampleHunk =
     ustr ''@@ -3,8 +5,8 @@ f'' @ [10] @ ustr '' a'' @ [10] @ ustr '' b'' @ [10]
       @ ustr '' c'' @ [10] @ ustr '' d'' @ [10] @ ustr ''-x'' @ [10] @ ustr ''+y'' @ [10]
       @ ustr '' e'' @ [10] @ ustr '' f'' @ [10] @ ustr '' g'' @ [10]"

text \<open>A hunk that adds two lines at line \<open>2 ^ 53\<close> of the new file.\<close>

definition limitHunk :: ustring where
  "limitHunk =
     ustr ''@@ -9007199254740991,0 +9007199254740992,2 @@'' @ [10] @ ustr ''+a'' @ [10]
       @ ustr ''+b''"

subsection \<open>Header lines of a diff\<close>

text \<open>The lines of a text, ended by the line terminators, and the lines that begin
  with a hunk header.\<close>

fun jsLines :: "ustring \<Rightarrow> ustring list" where
  "jsLines [] = [[]]"
| "jsLines (c # cs) =
     (if isLineTerminator c then [] # jsLines cs
      else (case jsLines cs of
              [] \<Rightarrow> [[c]]
            | l # ls \<Rightarrow> (c # l) # ls))"

definition isHeaderLine :: "ustring \<Rightarrow> bool" where
  "isHeaderLine line = (matchHeader line \<noteq> None)"

text \<open>The indices of a text at which the pattern of \<^verbatim>\<open>splitPatch\<close> matches, in
  ascending order: the starts of its header lines.\<close>

definition headerStarts :: "ustring \<Rightarrow> nat list" where
  "headerStarts s = filter (\<lambda>i. matchAt s i \<noteq> None) [0 ..< Suc (length s)]"

text \<open>A diff with a line before its first hunk header.\<close>

definition prefixedDiff :: ustring where
  "prefixedDiff = ustr ''x'' @ [10] @ ustr ''@@ -1,1 +1,1 @@'' @ [10] @ ustr ''+a''"

text \<open>A diff of two hunks that begins with a hunk header.\<close>

definition twoHunkDiff :: ustring where
  "twoHunkDiff =
     ustr ''@@ -1,1 +1,1 @@'' @ [10] @ ustr ''+a'' @ [10] @ ustr ''@@ -7,1 +7,1 @@'' @ [10]
       @ ustr ''-b''"

subsection \<open>The pieces between header starts\<close>

text \<open>The indices at or after \<open>k\<close> at which the pattern matches, and the substrings a
  list of indices cuts a text into: from each index to the next, and from the last index
  to the end.\<close>

definition matchStarts :: "ustring \<Rightarrow> nat \<Rightarrow> nat list" where
  "matchStarts s k = filter (\<lambda>i. matchAt s i \<noteq> None) [k ..< Suc (length s)]"

fun pieces :: "ustring \<Rightarrow> nat list \<Rightarrow> ustring list" where
  "pieces s [] = []"
| "pieces s [i] = [drop i s]"
| "pieces s (i # j # js) = take (j - i) (drop i s) # pieces s (j # js)"


chapter \<open>Properties\<close>

section \<open>JavaScript numbers\<close>

lemma bitLength_le: "0 \<le> n \<Longrightarrow> n < 2 ^ k \<Longrightarrow> bitLength n \<le> k"
proof (induction k arbitrary: n)
  case 0
  then have "n = 0" by simp
  then show ?case by (simp add: bitLength.simps)
next
  case (Suc k)
  show ?case
  proof (cases "n \<le> 0")
    case True
    then show ?thesis by (simp add: bitLength.simps)
  next
    case False
    from Suc.prems have "0 \<le> n div 2" "n div 2 < 2 ^ k" by simp_all
    then have "bitLength (n div 2) \<le> k" by (rule Suc.IH)
    with False show ?thesis by (simp add: bitLength.simps [of n])
  qed
qed

lemma bitLength_power: "bitLength (2 ^ k) = Suc k"
proof (induction k)
  case 0
  show ?case by (simp add: bitLength.simps [of 1] bitLength.simps [of 0])
next
  case (Suc k)
  have "bitLength (2 ^ Suc k) = Suc (bitLength (2 ^ Suc k div 2))"
    by (subst bitLength.simps) simp
  with Suc show ?case by simp
qed

lemma roundMagnitude_small: "0 \<le> n \<Longrightarrow> n < 2 ^ 53 \<Longrightarrow> roundMagnitude n = n"
  using bitLength_le [of n 53] by (simp add: roundMagnitude_def)

lemma roundMagnitude_limit: "roundMagnitude (2 ^ 53) = 2 ^ 53"
proof -
  have "bitLength (2 ^ 53) = Suc 53" by (rule bitLength_power)
  then have bl: "bitLength 9007199254740992 = 54" by simp
  show ?thesis by (simp add: roundMagnitude_def bl Let_def)
qed

lemma roundMagnitude_exact: "0 \<le> n \<Longrightarrow> n \<le> 2 ^ 53 \<Longrightarrow> roundMagnitude n = n"
  using roundMagnitude_small [of n] roundMagnitude_limit by (cases "n = 2 ^ 53") simp_all

lemma toDouble_exact: "\<bar>x\<bar> \<le> 2 ^ 53 \<Longrightarrow> toDouble x = Fin x"
proof -
  assume b: "\<bar>x\<bar> \<le> 2 ^ 53"
  then have r: "roundMagnitude \<bar>x\<bar> = \<bar>x\<bar>" by (simp add: roundMagnitude_exact)
  have "(2::int) ^ 53 < 2 ^ 1024" by simp
  with b have "\<not> \<bar>x\<bar> \<ge> 2 ^ 1024" by linarith
  then show ?thesis by (simp add: toDouble_def r Let_def)
qed

lemma jsAdd_exact: "\<bar>a + b\<bar> \<le> 2 ^ 53 \<Longrightarrow> jsAdd (Fin a) (Fin b) = Fin (a + b)"
  by (simp add: toDouble_exact)

lemma jsSub_exact: "\<bar>a - b\<bar> \<le> 2 ^ 53 \<Longrightarrow> jsSub (Fin a) (Fin b) = Fin (a - b)"
  by (simp add: jsSub_def toDouble_exact)

lemma jsMax_Fin: "jsMax (Fin a) (Fin b) = Fin (max a b)"
  by (simp add: jsMax_def max_def)

lemma jsMin_Fin: "jsMin (Fin a) (Fin b) = Fin (min a b)"
  by (auto simp: jsMin_def min_def)

lemma jsEq_Fin: "jsEq (Fin a) (Fin b) = (a = b)"
  by (simp add: jsEq_def)


lemma bitLength_between: "2 ^ k \<le> n \<Longrightarrow> n < 2 ^ Suc k \<Longrightarrow> bitLength n = Suc k"
proof (induction k arbitrary: n)
  case 0
  then have "n = 1" by simp
  then show ?case by (simp add: bitLength.simps [of 1] bitLength.simps [of 0])
next
  case (Suc k)
  from Suc.prems have pos: "\<not> n \<le> 0"
    by (smt (verit) zero_less_power)
  from Suc.prems have "2 ^ k \<le> n div 2" "n div 2 < 2 ^ Suc k" by simp_all
  then have "bitLength (n div 2) = Suc k" by (rule Suc.IH)
  with pos show ?case by (simp add: bitLength.simps [of n])
qed

lemma toDouble_above_limit: "toDouble 9007199254740993 = Fin 9007199254740992"
proof -
  have "bitLength 9007199254740993 = Suc 53"
    by (rule bitLength_between) simp_all
  then show ?thesis
    by (simp add: toDouble_def roundMagnitude_def Let_def)
qed

section \<open>Review state\<close>

lemma findIndex_ge: "findIndex P xs = -1 \<or> 0 \<le> findIndex P xs"
  by (induction xs) (auto simp: Let_def)

lemma findIndex_found:
  "findIndex P xs \<noteq> -1 \<Longrightarrow>
     0 \<le> findIndex P xs \<and> nat (findIndex P xs) < length xs \<and> P (xs ! nat (findIndex P xs))"
proof (induction xs)
  case Nil
  then show ?case by simp
next
  case (Cons x xs)
  show ?case
  proof (cases "P x")
    case True
    then show ?thesis by simp
  next
    case False
    with Cons.prems have ne: "findIndex P xs \<noteq> -1"
      by (auto simp: Let_def split: if_splits)
    from Cons.IH [OF ne] False ne show ?thesis
      by (simp add: Let_def nat_add_distrib)
  qed
qed

lemma findIndex_first:
  "findIndex P xs \<noteq> -1 \<Longrightarrow> j < nat (findIndex P xs) \<Longrightarrow> \<not> P (xs ! j)"
proof (induction xs arbitrary: j)
  case Nil
  then show ?case by simp
next
  case (Cons x xs)
  show ?case
  proof (cases "P x")
    case True
    with Cons.prems show ?thesis by simp
  next
    case False
    with Cons.prems have ne: "findIndex P xs \<noteq> -1"
      by (auto simp: Let_def split: if_splits)
    have ge: "0 \<le> findIndex P xs" using findIndex_found [OF ne] by simp
    show ?thesis
    proof (cases j)
      case 0
      with False show ?thesis by simp
    next
      case (Suc k)
      with Cons.prems False ne ge have "k < nat (findIndex P xs)"
        by (simp add: Let_def nat_add_distrib)
      from Cons.IH [OF ne this] Suc show ?thesis by simp
    qed
  qed
qed

lemma findIndex_none: "(findIndex P xs = -1) = (\<forall>x \<in> set xs. \<not> P x)"
proof (induction xs)
  case Nil
  then show ?case by simp
next
  case (Cons x xs)
  have "findIndex P xs = -1 \<or> 0 \<le> findIndex P xs" by (rule findIndex_ge)
  with Cons show ?case by (auto simp: Let_def)
qed

lemma filter_update_length:
  "i < length xs \<Longrightarrow>
     length (filter Q (xs[i := x])) + (if Q (xs ! i) then 1 else 0) =
       length (filter Q xs) + (if Q x then 1 else 0)"
proof (induction xs arbitrary: i)
  case Nil
  then show ?case by simp
next
  case (Cons a xs)
  show ?case
  proof (cases i)
    case 0
    then show ?thesis by simp
  next
    case (Suc k)
    with Cons.prems have "k < length xs" by simp
    from Cons.IH [OF this] Suc show ?thesis by simp
  qed
qed

lemma countStatus_update:
  assumes "i < length fl"
  shows "countStatus P (fl[i := f]) =
       countStatus P fl - (if P (status (fl ! i)) then 1 else 0) + (if P (status f) then 1 else 0)"
proof -
  have "int (length (filter (\<lambda>f. P (status f)) (fl[i := f])) + (if P (status (fl ! i)) then 1 else 0))
      = int (length (filter (\<lambda>f. P (status f)) fl) + (if P (status f) then 1 else 0))"
    using filter_update_length [OF assms, of "\<lambda>f. P (status f)" f] by simp
  then show ?thesis
    unfolding countStatus_def by (simp split: if_splits)
qed

lemma countStatus_pos:
  "i < length fl \<Longrightarrow> P (status (fl ! i)) \<Longrightarrow> 1 \<le> countStatus P fl"
  unfolding countStatus_def
proof (induction fl arbitrary: i)
  case Nil
  then show ?case by simp
next
  case (Cons a fl)
  then show ?case by (cases i) auto
qed

lemma countStatus_nonneg: "0 \<le> countStatus P fl"
  by (simp add: countStatus_def)

lemma countStatus_pending:
  "\<not> P Pending \<Longrightarrow> countStatus P (map (\<lambda>f. \<lparr> filename = f, status = Pending, error = None,
       updatedAt = now, skipConfidence = None, skipReason = None \<rparr>) fs) = 0"
  by (induction fs) (auto simp: countStatus_def)

lemma countersAgree_created: "countersAgree (createReviewState now cid fs)"
  by (simp add: countersAgree_def createReviewState_def countStatus_pending isCompleted_def)

lemma countersAgree_updateFileStatus:
  assumes agree: "countersAgree s"
    and upd: "updateFileStatus now s fname st opts = Inr s'"
  shows "countersAgree s'"
proof -
  let ?k = "findIndex (\<lambda>f. filename f = fname) (files s)"
  let ?i = "nat ?k"
  let ?old = "status (files s ! ?i)"
  from upd have ne: "?k \<noteq> -1"
    by (auto simp: updateFileStatus_def Let_def split: if_splits)
  then have lt: "?i < length (files s)" using findIndex_found by blast
  define f' where "f' = (files s ! ?i)
        \<lparr> status := st, FileReviewStatus.updatedAt := now, error := optField optError opts,
          skipConfidence := optField optSkipConfidence opts,
          skipReason := optField optSkipReason opts \<rparr>"
  have st': "status f' = st" by (simp add: f'_def)
  from upd ne have s': "s' = s
        \<lparr> updatedAt := now, files := (files s)[?i := f'],
          completedFiles := max 0 (completedFiles s + completedDelta ?old st),
          failedFiles := max 0 (failedFiles s + failedDelta ?old st),
          skippedFiles := max 0 (skippedFiles s + skippedDelta ?old st) \<rparr>"
    by (simp add: updateFileStatus_def Let_def f'_def)
  have c: "max 0 (completedFiles s + completedDelta ?old st)
             = countStatus isCompleted ((files s)[?i := f'])"
    using agree countStatus_pos [OF lt, of isCompleted] countStatus_nonneg [of isCompleted "files s"]
    by (auto simp: countersAgree_def countStatus_update [OF lt] st' completedDelta_def isCompleted_def)
  have f: "max 0 (failedFiles s + failedDelta ?old st)
             = countStatus (\<lambda>x. x = Failed) ((files s)[?i := f'])"
    using agree countStatus_pos [OF lt, of "\<lambda>x. x = Failed"]
      countStatus_nonneg [of "\<lambda>x. x = Failed" "files s"]
    by (auto simp: countersAgree_def countStatus_update [OF lt] st' failedDelta_def)
  have k: "max 0 (skippedFiles s + skippedDelta ?old st)
             = countStatus (\<lambda>x. x = Skipped) ((files s)[?i := f'])"
    using agree countStatus_pos [OF lt, of "\<lambda>x. x = Skipped"]
      countStatus_nonneg [of "\<lambda>x. x = Skipped" "files s"]
    by (auto simp: countersAgree_def countStatus_update [OF lt] st' skippedDelta_def)
  show ?thesis
    unfolding countersAgree_def s' using c f k by simp
qed

text \<open>
  Claim C3.  In every state reachable from \<^const>\<open>createReviewState\<close> by successful
  \<^const>\<open>updateFileStatus\<close> calls, \<^const>\<open>updatePhase\<close> and \<^const>\<open>recordError\<close>,
  \<open>completedFiles\<close> is the number of files whose status is reviewed or skipped,
  \<open>failedFiles\<close> the number of failed files, \<open>skippedFiles\<close> the number of skipped
  files, and none of the three counters is negative.
\<close>

theorem C3_counters_count_statuses:
  assumes "reachable cid fs s"
  shows "completedFiles s = countStatus (\<lambda>st. st = Reviewed \<or> st = Skipped) (files s) \<and>
         failedFiles s = countStatus (\<lambda>st. st = Failed) (files s) \<and>
         skippedFiles s = countStatus (\<lambda>st. st = Skipped) (files s) \<and>
         0 \<le> completedFiles s \<and> 0 \<le> failedFiles s \<and> 0 \<le> skippedFiles s"
proof -
  from assms have "countersAgree s"
  proof (induction rule: reachable.induct)
    case (created now)
    show ?case by (rule countersAgree_created)
  next
    case (file_updated s now fname st opts s')
    then show ?case using countersAgree_updateFileStatus by blast
  next
    case (phase_updated s now p)
    then show ?case by (simp add: countersAgree_def updatePhase_def)
  next
    case (error_recorded s now1 now2 err ty)
    then show ?case by (simp add: countersAgree_def recordError_def)
  qed
  then show ?thesis
    using countStatus_nonneg by (simp add: countersAgree_def isCompleted_def [abs_def])
qed

text \<open>
  Claim C3 at a reachable state: two pending files, the second one then skipped.
\<close>

theorem C3_counters_count_statuses_witness:
  "reachable ''abc123'' [''a.ts'', ''b.ts'']
     (projr (updateFileStatus ''t1'' (createReviewState ''t0'' ''abc123'' [''a.ts'', ''b.ts''])
        ''b.ts'' Skipped None)) \<and>
   completedFiles (projr (updateFileStatus ''t1''
        (createReviewState ''t0'' ''abc123'' [''a.ts'', ''b.ts'']) ''b.ts'' Skipped None)) = 1 \<and>
   failedFiles (projr (updateFileStatus ''t1''
        (createReviewState ''t0'' ''abc123'' [''a.ts'', ''b.ts'']) ''b.ts'' Skipped None)) = 0 \<and>
   skippedFiles (projr (updateFileStatus ''t1''
        (createReviewState ''t0'' ''abc123'' [''a.ts'', ''b.ts'']) ''b.ts'' Skipped None)) = 1"
proof -
  let ?s0 = "createReviewState ''t0'' ''abc123'' [''a.ts'', ''b.ts'']"
  obtain s1 where upd: "updateFileStatus ''t1'' ?s0 ''b.ts'' Skipped None = Inr s1"
    by (simp add: updateFileStatus_def createReviewState_def Let_def)
  have fl: "map status (files s1) = [Pending, Skipped]"
    using upd by (auto simp: updateFileStatus_def createReviewState_def Let_def)
  have r: "reachable ''abc123'' [''a.ts'', ''b.ts''] s1"
    by (rule reachable.file_updated [OF reachable.created upd])
  have cnt: "countStatus P (files s1) = int (length (filter P (map status (files s1))))" for P
    by (simp add: countStatus_def filter_map comp_def)
  from C3_counters_count_statuses [OF r] show ?thesis
    unfolding upd cnt fl using r by simp
qed

text \<open>
  Claim C9 as stated fails: from a state in phase reviewing, \<^const>\<open>updatePhase\<close> with the
  argument summarizing yields a state in phase summarizing.
\<close>

theorem C9_updatePhase_sets_phase_counterexample:
  "phase (updatePhase ''t1'' (createReviewState ''t0'' ''abc123'' [''a.ts'']) PhaseReviewing)
     = PhaseReviewing \<and>
   phase (updatePhase ''t2''
      (updatePhase ''t1'' (createReviewState ''t0'' ''abc123'' [''a.ts'']) PhaseReviewing)
      PhaseSummarizing) = PhaseSummarizing"
  by (simp add: updatePhase_def)

text \<open>
  Claim C9, amended.  \<^const>\<open>updatePhase\<close> sets the phase to the phase it is given,
  whatever the current phase is: the result is in phase summarizing exactly when the
  argument is summarizing.  It sets \<open>updatedAt\<close> and leaves every other field as it was.
\<close>

theorem C9_updatePhase_sets_phase:
  "phase (updatePhase now s p) = p \<and>
   (phase (updatePhase now s p) = PhaseSummarizing) = (p = PhaseSummarizing) \<and>
   updatedAt (updatePhase now s p) = now \<and>
   files (updatePhase now s p) = files s \<and>
   completedFiles (updatePhase now s p) = completedFiles s \<and>
   failedFiles (updatePhase now s p) = failedFiles s \<and>
   skippedFiles (updatePhase now s p) = skippedFiles s \<and>
   totalFiles (updatePhase now s p) = totalFiles s \<and>
   commitId (updatePhase now s p) = commitId s \<and>
   version (updatePhase now s p) = version s \<and>
   startedAt (updatePhase now s p) = startedAt s \<and>
   lastError (updatePhase now s p) = lastError s"
  by (simp add: updatePhase_def)

lemma findIndex_present:
  "fname \<in> set (map filename fl) \<Longrightarrow> findIndex (\<lambda>f. filename f = fname) fl \<noteq> -1"
  by (auto simp: findIndex_none)

text \<open>
  Claim C10.  For a filename present in the state, \<^const>\<open>updateFileStatus\<close> succeeds and
  changes the first entry with that filename only: every other entry is the same record
  as before, the list keeps its length and its order of filenames, and version,
  startedAt, commitId, totalFiles, phase and lastError are unchanged.  The targeted entry
  keeps its filename, takes the new status and the clock's time, and its error,
  skipConfidence and skipReason are the supplied options, hence cleared where no option
  is supplied.
\<close>

theorem C10_updateFileStatus_frame:
  assumes present: "fname \<in> set (map filename (files s))"
  shows "\<exists>s' i. updateFileStatus now s fname st opts = Inr s' \<and>
           i < length (files s) \<and>
           filename (files s ! i) = fname \<and>
           (\<forall>j < i. filename (files s ! j) \<noteq> fname) \<and>
           length (files s') = length (files s) \<and>
           (\<forall>j < length (files s). j \<noteq> i \<longrightarrow> files s' ! j = files s ! j) \<and>
           files s' ! i =
             \<lparr> filename = fname, status = st, error = optField optError opts,
               updatedAt = now, skipConfidence = optField optSkipConfidence opts,
               skipReason = optField optSkipReason opts \<rparr> \<and>
           map filename (files s') = map filename (files s) \<and>
           version s' = version s \<and> startedAt s' = startedAt s \<and>
           commitId s' = commitId s \<and> totalFiles s' = totalFiles s \<and>
           phase s' = phase s \<and> lastError s' = lastError s \<and>
           updatedAt s' = now"
proof -
  let ?k = "findIndex (\<lambda>f. filename f = fname) (files s)"
  let ?i = "nat ?k"
  let ?f' = "(files s ! ?i)
        \<lparr> status := st, FileReviewStatus.updatedAt := now, error := optField optError opts,
          skipConfidence := optField optSkipConfidence opts,
          skipReason := optField optSkipReason opts \<rparr>"
  let ?s' = "s \<lparr> updatedAt := now, files := (files s)[?i := ?f'],
          completedFiles := max 0 (completedFiles s + completedDelta (status (files s ! ?i)) st),
          failedFiles := max 0 (failedFiles s + failedDelta (status (files s ! ?i)) st),
          skippedFiles := max 0 (skippedFiles s + skippedDelta (status (files s ! ?i)) st) \<rparr>"
  have ne: "?k \<noteq> -1" using present by (rule findIndex_present)
  then have lt: "?i < length (files s)" and nm: "filename (files s ! ?i) = fname"
    using findIndex_found [OF ne] by auto
  have first: "\<forall>j < ?i. filename (files s ! j) \<noteq> fname"
    using findIndex_first [OF ne] by blast
  have upd: "updateFileStatus now s fname st opts = Inr ?s'"
    using ne by (simp add: updateFileStatus_def Let_def)
  have target: "files ?s' ! ?i =
      \<lparr> filename = fname, status = st, error = optField optError opts,
        updatedAt = now, skipConfidence = optField optSkipConfidence opts,
        skipReason = optField optSkipReason opts \<rparr>"
    using lt nm by simp
  have names: "map filename (files ?s') = map filename (files s)"
    using lt by (simp add: map_update list_update_same_conv)
  have others: "\<forall>j < length (files s). j \<noteq> ?i \<longrightarrow> files ?s' ! j = files s ! j"
    by simp
  have rest: "length (files ?s') = length (files s) \<and>
      version ?s' = version s \<and> startedAt ?s' = startedAt s \<and>
      commitId ?s' = commitId s \<and> totalFiles ?s' = totalFiles s \<and>
      phase ?s' = phase s \<and> lastError ?s' = lastError s \<and> updatedAt ?s' = now"
    by simp
  from upd lt nm first target names others rest show ?thesis by blast
qed

text \<open>
  Claim C10 at a state whose first file failed with an error: updating that file without
  options clears the stored error and leaves the second file alone.
\<close>

theorem C10_updateFileStatus_frame_witness:
  "''a.ts'' \<in> set (map filename (files failedExample)) \<and>
   updateFileStatus ''t1'' (createReviewState ''t0'' ''abc123'' [''a.ts'', ''b.ts'']) ''a.ts'' Failed
       (Some \<lparr> optError = Some ''Rate limit exceeded'', optSkipConfidence = None,
               optSkipReason = None \<rparr>) = Inr failedExample \<and>
   (\<exists>s'. updateFileStatus ''t2'' failedExample ''a.ts'' Reviewing None = Inr s' \<and>
         error (files s' ! 0) = None \<and> status (files s' ! 0) = Reviewing \<and>
         files s' ! 1 = files failedExample ! 1 \<and> phase s' = PhaseSummarizing)"
proof -
  have mem: "''a.ts'' \<in> set (map filename (files failedExample))"
    by (simp add: failedExample_def)
  have built: "updateFileStatus ''t1'' (createReviewState ''t0'' ''abc123'' [''a.ts'', ''b.ts''])
       ''a.ts'' Failed (Some \<lparr> optError = Some ''Rate limit exceeded'', optSkipConfidence = None,
               optSkipReason = None \<rparr>) = Inr failedExample"
    by (simp add: updateFileStatus_def createReviewState_def failedExample_def Let_def
        optField_def completedDelta_def failedDelta_def skippedDelta_def)
  from C10_updateFileStatus_frame [OF mem, of "''t2''" Reviewing None]
  obtain s' i where upd: "updateFileStatus ''t2'' failedExample ''a.ts'' Reviewing None = Inr s'"
    and i: "i < length (files failedExample)" "filename (files failedExample ! i) = ''a.ts''"
    and others: "\<forall>j < length (files failedExample). j \<noteq> i \<longrightarrow> files s' ! j = files failedExample ! j"
    and target: "files s' ! i = \<lparr> filename = ''a.ts'', status = Reviewing,
               error = optField optError None, updatedAt = ''t2'',
               skipConfidence = optField optSkipConfidence None,
               skipReason = optField optSkipReason None \<rparr>"
    and ph: "phase s' = phase failedExample"
    by blast
  from i have i0: "i = 0"
    by (cases i) (auto simp: failedExample_def less_Suc_eq)
  have "error (files s' ! 0) = None \<and> status (files s' ! 0) = Reviewing"
    using target i0 by (simp add: optField_def)
  moreover have "files s' ! 1 = files failedExample ! 1"
    using others i0 by (simp add: failedExample_def)
  moreover have "phase s' = PhaseSummarizing"
    using ph by (simp add: failedExample_def)
  ultimately show ?thesis using mem built upd by blast
qed

lemma subset_distinct_same_length:
  assumes "distinct xs" "length xs = length ys" "set xs \<subseteq> set ys"
  shows "set xs = set ys"
proof -
  have "card (set ys) \<le> length ys" by (rule card_length)
  also have "\<dots> = card (set xs)" using assms(1,2) by (simp add: distinct_card)
  finally have "card (set ys) \<le> card (set xs)" .
  with assms(3) show ?thesis by (simp add: card_seteq)
qed

text \<open>
  What \<^const>\<open>isSameReview\<close> computes: it is true exactly when both states are present,
  their commit ids are equal, their file lists have the same length and every filename of
  the first state is a filename of the second.  When the filenames of the first state are
  pairwise distinct, this is the same as: equal commit ids, identical filename sets
  (whatever the order) and equally long file lists.  A present state is always the same
  review as itself.
\<close>

lemma isSameReview_iff:
  "isSameReview a b =
      (\<exists>s1 s2. a = Some s1 \<and> b = Some s2 \<and> commitId s1 = commitId s2 \<and>
         length (files s1) = length (files s2) \<and>
         set (map filename (files s1)) \<subseteq> set (map filename (files s2)))"
  by (cases a; cases b) (auto simp: isSameReview_def Let_def)

lemma isSameReview_distinct:
  assumes d: "distinct (map filename (files s1))"
  shows "isSameReview (Some s1) (Some s2) =
        (commitId s1 = commitId s2 \<and>
         set (map filename (files s1)) = set (map filename (files s2)) \<and>
         length (files s1) = length (files s2))"
proof -
  have "set (map filename (files s1)) = set (map filename (files s2))"
    if "length (files s1) = length (files s2)"
      "set (map filename (files s1)) \<subseteq> set (map filename (files s2))"
    using subset_distinct_same_length [OF d _ that(2)] that(1) by simp
  then show ?thesis unfolding isSameReview_iff by auto
qed

lemma isSameReview_refl: "isSameReview (Some s) (Some s)"
  unfolding isSameReview_iff by simp

text \<open>
  Claim C7 fails on the code when a filename is repeated.  The lists \<open>[a.ts, a.ts]\<close> and
  \<open>[a.ts, b.ts]\<close> have the same length and every filename of the first is in the second,
  so \<^const>\<open>isSameReview\<close> returns true although the filename sets differ; with the two
  states in the other order it returns false.  Under its comment \<open>Must have the same
  files\<close> the function compares the lengths of the lists, not the sizes of the sets.
\<close>

theorem C7_isSameReview_repeated_filename:
  "isSameReview (Some (createReviewState ''t0'' ''abc123'' [''a.ts'', ''a.ts'']))
                (Some (createReviewState ''t1'' ''abc123'' [''a.ts'', ''b.ts''])) \<and>
   \<not> isSameReview (Some (createReviewState ''t1'' ''abc123'' [''a.ts'', ''b.ts'']))
                  (Some (createReviewState ''t0'' ''abc123'' [''a.ts'', ''a.ts''])) \<and>
   set (map filename (files (createReviewState ''t0'' ''abc123'' [''a.ts'', ''a.ts''])))
     \<noteq> set (map filename (files (createReviewState ''t1'' ''abc123'' [''a.ts'', ''b.ts''])))"
  by (simp add: isSameReview_def createReviewState_def)

text \<open>
  Claim C7 at these two states: the answer of \<^const>\<open>isSameReview\<close> depends on the order
  in which they are given.
\<close>

theorem C7_isSameReview_repeated_filename_witness:
  "isSameReview (Some (createReviewState ''t0'' ''abc123'' [''a.ts'', ''a.ts'']))
                (Some (createReviewState ''t1'' ''abc123'' [''a.ts'', ''b.ts'']))
   \<noteq> isSameReview (Some (createReviewState ''t1'' ''abc123'' [''a.ts'', ''b.ts'']))
                  (Some (createReviewState ''t0'' ''abc123'' [''a.ts'', ''a.ts'']))"
  using C7_isSameReview_repeated_filename by blast

section \<open>Retry policy\<close>

text \<open>
  Claim C8.  \<^const>\<open>shouldRetry\<close> is false for token_limit, whatever the attempt and the
  configuration.  For every other error type it is true exactly when the attempt is below
  the configuration's maximum for that error type when the configuration has one, and
  below the configuration's global \<open>maxAttempts\<close> otherwise.
\<close>

theorem C8_shouldRetry:
  "\<not> shouldRetry attempt TokenLimit config \<and>
   (errorType \<noteq> TokenLimit \<longrightarrow>
      shouldRetry attempt errorType config =
        (case perErrorTypeMaxAttempts config of
           Some per \<Rightarrow>
             (case per errorType of
                Some n \<Rightarrow> attempt < n
              | None \<Rightarrow> attempt < RetryConfig.maxAttempts config)
         | None \<Rightarrow> attempt < RetryConfig.maxAttempts config))"
proof (cases errorType)
  case TokenLimit
  then show ?thesis by (simp add: shouldRetry_def)
qed (simp_all add: shouldRetry_def split: option.splits)

text \<open>
  Claim C8 on the test suite's configuration: the tenth attempt after a rate limit is
  retried and the eleventh is not; an API error falls back to the global maximum.
\<close>

theorem C8_shouldRetry_witness:
  "RateLimit \<noteq> TokenLimit \<and>
   shouldRetry 9 RateLimit customConfig \<and> \<not> shouldRetry 10 RateLimit customConfig \<and>
   shouldRetry 4 ApiError customConfig \<and> \<not> shouldRetry 5 ApiError customConfig \<and>
   \<not> shouldRetry 0 TokenLimit customConfig"
proof -
  have per: "perErrorTypeMaxAttempts customConfig = Some [RateLimit \<mapsto> 10, Timeout \<mapsto> 3]"
    and glob: "RetryConfig.maxAttempts customConfig = 5"
    by (simp_all add: customConfig_def)
  have "shouldRetry 9 RateLimit customConfig" "\<not> shouldRetry 10 RateLimit customConfig"
    using C8_shouldRetry [of 9 customConfig RateLimit]
      C8_shouldRetry [of 10 customConfig RateLimit] by (simp_all add: per)
  moreover have "shouldRetry 4 ApiError customConfig" "\<not> shouldRetry 5 ApiError customConfig"
    using C8_shouldRetry [of 4 customConfig ApiError]
      C8_shouldRetry [of 5 customConfig ApiError] by (simp_all add: per glob)
  moreover have "\<not> shouldRetry 0 TokenLimit customConfig"
    using C8_shouldRetry [of 0 customConfig TokenLimit] by simp
  ultimately show ?thesis by simp
qed


section \<open>Stored state\<close>

lemma getProp_propOf: "v \<noteq> JNull \<Longrightarrow> getProp v key = Inr (propOf v key)"
  by (cases v) (simp_all add: propOf_def)

lemma validState_JNull: "\<not> validState JNull"
  by (simp add: validState_def propOf_def)

lemma tryBlock_value:
  "P s = Some v \<Longrightarrow> v \<noteq> JNull \<Longrightarrow>
     tryBlock P s = Inr (if validState v then Some v else None)"
  by (simp add: tryBlock_def getProp_propOf validState_def)

text \<open>
  Claim C6 as stated fails: a stored state whose commit id is the empty string has all of
  version, startedAt, commitId and a files array, and its version is exactly 1.0, yet
  \<^const>\<open>deserializeState\<close> returns \<^verbatim>\<open>null\<close> for it, not the parsed state.
\<close>

theorem C6_deserializeState_counterexample:
  "parseEmptyCommit emptyCommitText = Some emptyCommitState \<and>
   hasProp emptyCommitState ''version'' \<and> hasProp emptyCommitState ''startedAt'' \<and>
   hasProp emptyCommitState ''commitId'' \<and> isArray (propOf emptyCommitState ''files'') \<and>
   propOf emptyCommitState ''version'' = Some (JString ''1.0'') \<and>
   deserializeState parseEmptyCommit emptyCommitText = Inr None"
  by (simp add: parseEmptyCommit_def emptyCommitState_def hasProp_def propOf_def
      deserializeState_def tryBlock_def)

text \<open>
  Claim C6, amended.  \<^const>\<open>deserializeState\<close> never throws.  It returns \<^verbatim>\<open>null\<close>
  when the input is not valid JSON, and when the parsed value is not an object whose
  version, startedAt and commitId are truthy (present, and not the empty string, 0,
  false or null), whose files is an array and whose version is the string 1.0;
  otherwise it returns the parsed value.
\<close>

theorem C6_deserializeState:
  "\<not> isl (deserializeState P s) \<and>
   deserializeState P s =
     Inr (case P s of
            None \<Rightarrow> None
          | Some v \<Rightarrow> if validState v then Some v else None)"
proof (cases "P s")
  case None
  then show ?thesis by (simp add: deserializeState_def tryBlock_def)
next
  case (Some v)
  show ?thesis
  proof (cases "v = JNull")
    case True
    with Some show ?thesis
      by (simp add: deserializeState_def tryBlock_def validState_JNull)
  next
    case False
    from tryBlock_value [of P s v] Some False show ?thesis
      by (simp add: deserializeState_def)
  qed
qed


section \<open>Comment-to-patch mapper\<close>

lemma intersection_le: "intersection rs re p \<le> max 0 (re - rs + 1)"
  by (simp add: intersection_def)

lemma intersection_nonneg: "0 \<le> intersection rs re p"
  by (simp add: intersection_def)

lemma intersection_pos_range: "0 < intersection rs re p \<Longrightarrow> rs \<le> re"
  by (simp add: intersection_def)

lemma intersection_pos_end: "0 < intersection rs re p \<Longrightarrow> fst p \<le> fst (snd p)"
  by (simp add: intersection_def)

lemma exactFindBestLoop_unchanged:
  "\<forall>p \<in> set ps. intersection rs re p \<le> xMax m \<Longrightarrow> \<not> xWithin m
     \<Longrightarrow> exactFindBestLoop rs re ps m = m"
  by (induction ps) (simp_all add: exactLoopBody_def Let_def)

lemma exactFindBestLoop_within:
  assumes "\<not> xWithin m" "xMax m < re - rs + 1"
    and "\<exists>p \<in> set ps. intersection rs re p = re - rs + 1"
  shows "exactFindBestLoop rs re ps m = m' \<Longrightarrow> xWithin m'"
  using assms
proof (induction ps arbitrary: m)
  case Nil
  then show ?case by simp
next
  case (Cons p ps)
  let ?x = "intersection rs re p"
  show ?case
  proof (cases "?x = re - rs + 1")
    case True
    with Cons.prems show ?thesis by (auto simp: exactLoopBody_def Let_def)
  next
    case False
    with Cons.prems have ex: "\<exists>q \<in> set ps. intersection rs re q = re - rs + 1" by auto
    have le: "?x \<le> max 0 (re - rs + 1)" by (rule intersection_le)
    show ?thesis
    proof (cases "?x > xMax m")
      case True
      let ?m1 = "\<lparr> xWithin = False, xBestStart = fst p,
          xBestEnd = fst (snd p), xMax = ?x \<rparr>"
      from True False have body: "exactLoopBody rs re p m = ?m1" by (simp add: exactLoopBody_def)
      from ex obtain q where "intersection rs re q = re - rs + 1" by blast
      with intersection_nonneg [of rs re q] have L0: "0 \<le> re - rs + 1" by simp
      have lt: "xMax ?m1 < re - rs + 1"
        using le False intersection_nonneg [of rs re p] L0 by (simp add: max_def split: if_splits)
      from Cons.prems(1) body have "exactFindBestLoop rs re ps ?m1 = m'" by (simp add: Let_def)
      from Cons.IH [OF this _ lt ex] show ?thesis by simp
    next
      case gt: False
      then have body: "exactLoopBody rs re p m = m" by (simp add: exactLoopBody_def)
      with Cons.prems(1,2) have "exactFindBestLoop rs re ps m = m'" by (simp add: Let_def)
      from Cons.IH [OF this Cons.prems(2,3) ex] show ?thesis .
    qed
  qed
qed

lemma exactFindBestLoop_best:
  assumes "\<not> xWithin m"
    and "\<forall>p \<in> set ps. intersection rs re p \<noteq> re - rs + 1"
    and "\<exists>p \<in> set ps. xMax m < intersection rs re p"
  shows "\<exists>pre p post. ps = pre @ p # post \<and>
           (\<forall>q \<in> set pre. intersection rs re q < intersection rs re p) \<and>
           (\<forall>q \<in> set post. intersection rs re q \<le> intersection rs re p) \<and>
           xMax m < intersection rs re p \<and>
           exactFindBestLoop rs re ps m =
             \<lparr> xWithin = False, xBestStart = fst p,
               xBestEnd = fst (snd p), xMax = intersection rs re p \<rparr>"
  using assms
proof (induction ps arbitrary: m)
  case Nil
  then show ?case by simp
next
  case (Cons a ps)
  let ?x = "intersection rs re a"
  from Cons.prems(2) have nf: "?x \<noteq> re - rs + 1"
    and nfs: "\<forall>p \<in> set ps. intersection rs re p \<noteq> re - rs + 1" by simp_all
  show ?case
  proof (cases "?x > xMax m")
    case True
    let ?m1 = "\<lparr> xWithin = False, xBestStart = fst a,
        xBestEnd = fst (snd a), xMax = ?x \<rparr>"
    from True nf have body: "exactLoopBody rs re a m = ?m1" by (simp add: exactLoopBody_def)
    then have step: "exactFindBestLoop rs re (a # ps) m = exactFindBestLoop rs re ps ?m1"
      by (simp add: Let_def)
    show ?thesis
    proof (cases "\<exists>p \<in> set ps. ?x < intersection rs re p")
      case False
      then have "\<forall>p \<in> set ps. intersection rs re p \<le> xMax ?m1" by auto
      then have "exactFindBestLoop rs re ps ?m1 = ?m1"
        by (rule exactFindBestLoop_unchanged) simp
      with step True False have "a # ps = [] @ a # ps \<and>
           (\<forall>q \<in> set []. intersection rs re q < ?x) \<and>
           (\<forall>q \<in> set ps. intersection rs re q \<le> ?x) \<and>
           xMax m < ?x \<and>
           exactFindBestLoop rs re (a # ps) m = ?m1" by auto
      then show ?thesis by blast
    next
      case ex: True
      then have ex': "\<exists>p \<in> set ps. xMax ?m1 < intersection rs re p" by simp
      have nw: "\<not> xWithin ?m1" by simp
      from Cons.IH [OF nw nfs ex'] obtain pre p post where
        ps: "ps = pre @ p # post"
        and pre: "\<forall>q \<in> set pre. intersection rs re q < intersection rs re p"
        and post: "\<forall>q \<in> set post. intersection rs re q \<le> intersection rs re p"
        and gt: "?x < intersection rs re p"
        and res: "exactFindBestLoop rs re ps ?m1 =
             \<lparr> xWithin = False, xBestStart = fst p,
               xBestEnd = fst (snd p), xMax = intersection rs re p \<rparr>"
        by auto
      from ps pre post gt res step True have "a # ps = (a # pre) @ p # post \<and>
           (\<forall>q \<in> set (a # pre). intersection rs re q < intersection rs re p) \<and>
           (\<forall>q \<in> set post. intersection rs re q \<le> intersection rs re p) \<and>
           xMax m < intersection rs re p \<and>
           exactFindBestLoop rs re (a # ps) m =
             \<lparr> xWithin = False, xBestStart = fst p,
               xBestEnd = fst (snd p), xMax = intersection rs re p \<rparr>"
        by auto
      then show ?thesis by blast
    qed
  next
    case False
    then have body: "exactLoopBody rs re a m = m" by (simp add: exactLoopBody_def)
    with Cons.prems(1) have step: "exactFindBestLoop rs re (a # ps) m = exactFindBestLoop rs re ps m"
      by (simp add: Let_def)
    from False Cons.prems(3) have ex: "\<exists>p \<in> set ps. xMax m < intersection rs re p"
      by auto
    from Cons.IH [OF Cons.prems(1) nfs ex] obtain pre p post where
      ps: "ps = pre @ p # post"
      and pre: "\<forall>q \<in> set pre. intersection rs re q < intersection rs re p"
      and post: "\<forall>q \<in> set post. intersection rs re q \<le> intersection rs re p"
      and gt: "xMax m < intersection rs re p"
      and res: "exactFindBestLoop rs re ps m =
           \<lparr> xWithin = False, xBestStart = fst p,
             xBestEnd = fst (snd p), xMax = intersection rs re p \<rparr>"
      by auto
    from ps pre post gt res step False have "a # ps = (a # pre) @ p # post \<and>
         (\<forall>q \<in> set (a # pre). intersection rs re q < intersection rs re p) \<and>
         (\<forall>q \<in> set post. intersection rs re q \<le> intersection rs re p) \<and>
         xMax m < intersection rs re p \<and>
         exactFindBestLoop rs re (a # ps) m =
           \<lparr> xWithin = False, xBestStart = fst p,
             xBestEnd = fst (snd p), xMax = intersection rs re p \<rparr>"
      by auto
    then show ?thesis by blast
  qed
qed


lemma intersection_bounds:
  assumes "safeLine s" "safeLine e" "safeHunk p"
  shows "\<bar>min e (fst (snd p)) - max s (fst p)\<bar> \<le> 2 ^ 53"
    and "\<bar>min e (fst (snd p)) - max s (fst p) + 1\<bar> \<le> 2 ^ 53"
    and "\<bar>e - s\<bar> \<le> 2 ^ 53" and "\<bar>e - s + 1\<bar> \<le> 2 ^ 53"
  using assms by (auto simp: safeLine_def safeHunk_def)

lemma loopBody_exact:
  assumes "safeLine s" "safeLine e" "safeHunk p"
  shows "loopBody (Fin s) (Fin e) (jsPatch p) (jsMapping m) = jsMapping (exactLoopBody s e p m)"
proof -
  note b = intersection_bounds [OF assms]
  have len: "jsMax (Fin 0)
      (jsAdd (jsSub (jsMin (Fin e) (Fin (fst (snd p)))) (jsMax (Fin s) (Fin (fst p)))) (Fin 1))
      = Fin (intersection s e p)"
    by (simp only: jsMax_Fin jsMin_Fin jsSub_exact [OF b(1)] jsAdd_exact [OF b(2)]
        intersection_def)
  have full: "jsAdd (jsSub (Fin e) (Fin s)) (Fin 1) = Fin (e - s + 1)"
    by (simp only: jsSub_exact [OF b(3)] jsAdd_exact [OF b(4)])
  show ?thesis
    unfolding loopBody_def jsPatch_def
    by (simp only: prod.case Let_def len full)
      (simp add: jsMapping_def exactLoopBody_def jsEq_Fin)
qed

lemma findBestLoop_exact:
  assumes "safeLine s" "safeLine e" "\<forall>p \<in> set ps. safeHunk p"
  shows "findBestLoop (Fin s) (Fin e) (map jsPatch ps) (jsMapping m)
           = jsMapping (exactFindBestLoop s e ps m)"
  using assms(3)
proof (induction ps arbitrary: m)
  case Nil
  show ?case by simp
next
  case (Cons p ps)
  then have p: "safeHunk p" and ps: "\<forall>p \<in> set ps. safeHunk p" by simp_all
  have w: "withinPatch (jsMapping m') = xWithin m'" for m'
    by (simp add: jsMapping_def)
  show ?case
    by (simp add: loopBody_exact [OF assms(1,2) p] Let_def w Cons.IH [OF ps])
qed

lemma findBestPatchMapping_exact:
  assumes "safeLine s" "safeLine e" "\<forall>p \<in> set ps. safeHunk p"
  shows "findBestPatchMapping (map jsPatch ps) (Fin s) (Fin e)
           = jsMapping (exactFindBestLoop s e ps
               \<lparr> xWithin = False, xBestStart = -1, xBestEnd = -1, xMax = 0 \<rparr>)"
  using findBestLoop_exact [OF assms, of "\<lparr> xWithin = False, xBestStart = -1, xBestEnd = -1, xMax = 0 \<rparr>"]
  by (simp add: findBestPatchMapping_def jsMapping_def)


lemma mapReviewToPatch_none:
  assumes ne: "patches \<noteq> []"
    and safe: "safeLine s" "safeLine e" "\<forall>p \<in> set patches. safeHunk p"
    and none: "\<forall>p \<in> set patches. intersection s e p = 0"
  shows "mapReviewToPatch (map jsPatch patches) (jsReview s e c) =
           Inr (jsReview (fst (hd patches)) (fst (snd (hd patches)))
                  (noOverlapNote (Fin s) (Fin e) @ c))"
proof -
  let ?m0 = "\<lparr> xWithin = False, xBestStart = -1, xBestEnd = -1, xMax = 0 \<rparr>"
  have "exactFindBestLoop s e patches ?m0 = ?m0"
    by (rule exactFindBestLoop_unchanged) (use none in simp_all)
  then have m: "findBestPatchMapping (map jsPatch patches)
      (startLine (jsReview s e c)) (endLine (jsReview s e c)) = jsMapping ?m0"
    by (simp add: findBestPatchMapping_exact [OF safe] jsReview_def)
  from ne obtain p rest where ps: "patches = p # rest" by (cases patches) auto
  show ?thesis
    unfolding mapReviewToPatch_def
    apply (simp add: m jsMapping_def jsEq_Fin Let_def)
    apply (simp add: ps jsPatch_def jsReview_def)
    done
qed

lemma mapReviewToPatch_within:
  assumes safe: "safeLine s" "safeLine e" "\<forall>p \<in> set patches. safeHunk p"
    and range: "s \<le> e"
    and full: "\<exists>p \<in> set patches. intersection s e p = e - s + 1"
  shows "mapReviewToPatch (map jsPatch patches) (jsReview s e c) = Inr (jsReview s e c)"
proof -
  let ?m0 = "\<lparr> xWithin = False, xBestStart = -1, xBestEnd = -1, xMax = 0 \<rparr>"
  have "xWithin (exactFindBestLoop s e patches ?m0)"
    by (rule exactFindBestLoop_within [OF _ _ full]) (use range in simp_all)
  then show ?thesis
    unfolding mapReviewToPatch_def
    by (simp add: jsReview_def findBestPatchMapping_exact [OF safe] jsMapping_def)
qed

lemma mapReviewToPatch_best:
  assumes safe: "safeLine s" "safeLine e" "\<forall>p \<in> set patches. safeHunk p"
    and some: "\<exists>p \<in> set patches. 0 < intersection s e p"
    and nofull: "\<forall>p \<in> set patches. intersection s e p \<noteq> e - s + 1"
  shows "\<exists>pre p post. patches = pre @ p # post \<and>
           (\<forall>q \<in> set pre. intersection s e q < intersection s e p) \<and>
           (\<forall>q \<in> set post. intersection s e q \<le> intersection s e p) \<and>
           mapReviewToPatch (map jsPatch patches) (jsReview s e c) =
             Inr (jsReview (fst p) (fst (snd p)) (greatestOverlapNote (Fin s) (Fin e) @ c))"
proof -
  let ?m0 = "\<lparr> xWithin = False, xBestStart = -1, xBestEnd = -1, xMax = 0 \<rparr>"
  have nw: "\<not> xWithin ?m0" by simp
  from some have some': "\<exists>p \<in> set patches. xMax ?m0 < intersection s e p" by simp
  from exactFindBestLoop_best [OF nw nofull some'] obtain pre p post where
    ps: "patches = pre @ p # post"
    and pre: "\<forall>q \<in> set pre. intersection s e q < intersection s e p"
    and post: "\<forall>q \<in> set post. intersection s e q \<le> intersection s e p"
    and pos: "0 < intersection s e p"
    and res: "exactFindBestLoop s e patches ?m0 =
             \<lparr> xWithin = False, xBestStart = fst p,
               xBestEnd = fst (snd p), xMax = intersection s e p \<rparr>"
    by auto
  from ps safe(3) have s0: "0 \<le> fst p" by (simp add: safeHunk_def)
  with intersection_pos_end [OF pos] have e0: "0 \<le> fst (snd p)" by simp
  have "mapReviewToPatch (map jsPatch patches) (jsReview s e c) =
             Inr (jsReview (fst p) (fst (snd p)) (greatestOverlapNote (Fin s) (Fin e) @ c))"
    unfolding mapReviewToPatch_def
    using s0 e0
    by (simp add: jsReview_def findBestPatchMapping_exact [OF safe] res jsMapping_def jsEq_Fin)
  with ps pre post show ?thesis by blast
qed

text \<open>
  Claim C4 as stated fails twice.  On the empty range 5-4 (a response line \<^verbatim>\<open>5-4:\<close>) the
  intersection with the hunk 1-10 is 0, which is the full length \<open>4 - 5 + 1\<close> of the
  range, yet the range is not kept: it is remapped to the first hunk with the
  no-overlap note.  On the range 0 to \<open>2 ^ 53\<close> and the hunk 1 to \<open>2 ^ 53\<close> the
  intersection is \<open>2 ^ 53\<close> lines and the full length is \<open>2 ^ 53 + 1\<close> lines, yet the
  range is kept unchanged: the code computes the full length in doubles, where
  \<open>2 ^ 53 + 1\<close> is rounded to \<open>2 ^ 53\<close>.
\<close>

theorem C4_mapReviewToPatch_counterexample:
  "intersection 5 4 (1, 10, ''hunk'') = 4 - 5 + 1 \<and>
   mapReviewToPatch [jsPatch (1, 10, ''hunk'')] (jsReview 5 4 ''c'')
     = Inr (jsReview 1 10 (noOverlapNote (Fin 5) (Fin 4) @ ''c'')) \<and>
   intersection 0 9007199254740992 hugeHunk = 9007199254740992 \<and>
   9007199254740992 - 0 + 1 = (9007199254740993 :: int) \<and>
   mapReviewToPatch [jsPatch hugeHunk] (jsReview 0 9007199254740992 ''c'')
     = Inr (jsReview 0 9007199254740992 ''c'')"
proof -
  have small: "mapReviewToPatch [jsPatch (1, 10, ''hunk'')] (jsReview 5 4 ''c'')
     = Inr (jsReview 1 10 (noOverlapNote (Fin 5) (Fin 4) @ ''c''))"
    by (simp add: mapReviewToPatch_def findBestPatchMapping_def loopBody_def jsPatch_def
        jsReview_def jsMax_Fin jsMin_Fin jsSub_def jsEq_Fin toDouble_exact Let_def)
  have a: "toDouble 9007199254740991 = Fin 9007199254740991"
    "toDouble 9007199254740992 = Fin 9007199254740992"
    by (simp_all add: toDouble_exact)
  have huge: "mapReviewToPatch [jsPatch hugeHunk] (jsReview 0 9007199254740992 ''c'')
     = Inr (jsReview 0 9007199254740992 ''c'')"
    by (simp add: mapReviewToPatch_def findBestPatchMapping_def loopBody_def jsPatch_def
        hugeHunk_def jsReview_def jsMax_Fin jsMin_Fin jsSub_def a toDouble_above_limit
        jsEq_Fin Let_def)
  show ?thesis
    using small huge by (simp add: intersection_def hugeHunk_def)
qed


lemma numToString_lines:
  "numToString (Fin 8) = ''8''" "numToString (Fin 22) = ''22''"
  "numToString (Fin 12) = ''12''" "numToString (Fin 15) = ''15''"
  by code_simp+

text \<open>
  Claim C4, amended.  Take at least one hunk, and let the line numbers of the hunks and of
  the range be safe integers: not negative and below \<open>2 ^ 53\<close> (a hunk's end may be
  \<open>-1\<close>, the end of an empty hunk at line 0).  Then the mapper never fails.  If the range
  is not empty (\<open>startLine \<le> endLine\<close>) and some hunk's intersection with it equals its
  full length, the review is returned unchanged, with no note.  Otherwise, if some hunk
  intersects the range, the range becomes the bounds of the hunk with maximal
  intersection, the first such hunk in the list, and the comment is preceded by the note
  disclosing the original lines.  If no hunk intersects the range at all, which is always
  so when \<open>endLine < startLine\<close>, the range becomes the first hunk's bounds and the
  comment is preceded by the note saying that no overlapping patch was found.
\<close>

theorem C4_mapReviewToPatch:
  assumes ne: "patches \<noteq> []"
    and hunks: "\<forall>p \<in> set patches. safeHunk p"
    and lines: "safeLine s" "safeLine e"
  shows "\<exists>r'. mapReviewToPatch (map jsPatch patches) (jsReview s e c) = Inr r' \<and>
     (s \<le> e \<and> (\<exists>p \<in> set patches. intersection s e p = e - s + 1)
        \<longrightarrow> r' = jsReview s e c) \<and>
     ((\<exists>p \<in> set patches. 0 < intersection s e p) \<and>
      (\<forall>p \<in> set patches. intersection s e p \<noteq> e - s + 1)
        \<longrightarrow> (\<exists>pre p post. patches = pre @ p # post \<and>
              (\<forall>q \<in> set pre. intersection s e q < intersection s e p) \<and>
              (\<forall>q \<in> set post. intersection s e q \<le> intersection s e p) \<and>
              r' = jsReview (fst p) (fst (snd p))
                     (greatestOverlapNote (Fin s) (Fin e) @ c))) \<and>
     ((\<forall>p \<in> set patches. intersection s e p = 0)
        \<longrightarrow> r' = jsReview (fst (hd patches)) (fst (snd (hd patches)))
                     (noOverlapNote (Fin s) (Fin e) @ c)) \<and>
     (e < s
        \<longrightarrow> r' = jsReview (fst (hd patches)) (fst (snd (hd patches)))
                     (noOverlapNote (Fin s) (Fin e) @ c))"
proof -
  let ?I = "\<lambda>p. intersection s e p"
  let ?first = "jsReview (fst (hd patches)) (fst (snd (hd patches)))
                     (noOverlapNote (Fin s) (Fin e) @ c)"
  let ?props = "\<lambda>r'.
     (s \<le> e \<and> (\<exists>p \<in> set patches. ?I p = e - s + 1) \<longrightarrow> r' = jsReview s e c) \<and>
     ((\<exists>p \<in> set patches. 0 < ?I p) \<and> (\<forall>p \<in> set patches. ?I p \<noteq> e - s + 1)
        \<longrightarrow> (\<exists>pre p post. patches = pre @ p # post \<and>
              (\<forall>q \<in> set pre. ?I q < ?I p) \<and> (\<forall>q \<in> set post. ?I q \<le> ?I p) \<and>
              r' = jsReview (fst p) (fst (snd p))
                     (greatestOverlapNote (Fin s) (Fin e) @ c))) \<and>
     ((\<forall>p \<in> set patches. ?I p = 0) \<longrightarrow> r' = ?first) \<and>
     (e < s \<longrightarrow> r' = ?first)"
  consider (none) "\<forall>p \<in> set patches. ?I p = 0"
    | (full) "\<exists>p \<in> set patches. 0 < ?I p" "\<exists>p \<in> set patches. ?I p = e - s + 1"
    | (part) "\<exists>p \<in> set patches. 0 < ?I p" "\<forall>p \<in> set patches. ?I p \<noteq> e - s + 1"
    using intersection_nonneg [of s e] by (metis order_le_less)
  then show ?thesis
  proof cases
    case none
    have notfull: "\<not> (s \<le> e \<and> (\<exists>p \<in> set patches. ?I p = e - s + 1))"
      using none by auto
    have notsome: "\<not> (\<exists>p \<in> set patches. 0 < ?I p)" using none by simp
    have "\<exists>r'. Inr ?first = (Inr r' :: js_exception + Review) \<and> ?props r'"
      using notfull notsome by blast
    then show ?thesis
      unfolding mapReviewToPatch_none [OF ne lines hunks none] .
  next
    case full
    from full(1) have range: "s \<le> e" using intersection_pos_range by blast
    then have notrev: "\<not> e < s" by simp
    have notnone: "\<not> (\<forall>p \<in> set patches. ?I p = 0)" using full(1) by fastforce
    have notpart: "\<not> (\<forall>p \<in> set patches. ?I p \<noteq> e - s + 1)" using full(2) by auto
    have "\<exists>r'. Inr (jsReview s e c) = (Inr r' :: js_exception + Review) \<and> ?props r'"
      using notrev notnone notpart by blast
    then show ?thesis
      unfolding mapReviewToPatch_within [OF lines hunks range full(2)] .
  next
    case part
    from part(1) have range: "s \<le> e" using intersection_pos_range by blast
    then have notrev: "\<not> e < s" by simp
    have notnone: "\<not> (\<forall>p \<in> set patches. ?I p = 0)" using part(1) by fastforce
    have notfull: "\<not> (\<exists>p \<in> set patches. ?I p = e - s + 1)" using part(2) by auto
    from mapReviewToPatch_best [OF lines hunks part] obtain pre p post where
      *: "patches = pre @ p # post"
      "\<forall>q \<in> set pre. ?I q < ?I p" "\<forall>q \<in> set post. ?I q \<le> ?I p"
      and res: "mapReviewToPatch (map jsPatch patches) (jsReview s e c) =
         Inr (jsReview (fst p) (fst (snd p)) (greatestOverlapNote (Fin s) (Fin e) @ c))"
      by blast
    have "\<exists>r'. Inr (jsReview (fst p) (fst (snd p)) (greatestOverlapNote (Fin s) (Fin e) @ c))
             = (Inr r' :: js_exception + Review) \<and> ?props r'"
      using * notrev notnone notfull by blast
    then show ?thesis
      unfolding res .
  qed
qed

text \<open>
  Claim C4 on a file with two hunks: a range inside the first hunk is kept; a range
  overlapping both hunks by three lines each goes to the first, with the note disclosing
  the lines 8-22; a range between the hunks goes to the first hunk with the no-overlap
  note.
\<close>

theorem C4_mapReviewToPatch_witness:
  "mapReviewToPatch (map jsPatch twoHunks) (jsReview 3 4 ''c'')
     = Inr \<lparr> startLine = Fin 3, endLine = Fin 4, comment = ''c'' \<rparr> \<and>
   mapReviewToPatch (map jsPatch twoHunks) (jsReview 8 22 ''c'')
     = Inr \<lparr> startLine = Fin 1, endLine = Fin 10,
             comment = ''> Note: This review was outside of the patch, so it was mapped to the patch with the greatest overlap. Original lines [8-22]''
               @ [CHR 0x0A, CHR 0x0A] @ ''c'' \<rparr> \<and>
   mapReviewToPatch (map jsPatch twoHunks) (jsReview 12 15 ''c'')
     = Inr \<lparr> startLine = Fin 1, endLine = Fin 10,
             comment = ''> Note: This review was outside of the patch, but no patch was found that overlapped with it. Original lines [12-15]''
               @ [CHR 0x0A, CHR 0x0A] @ ''c'' \<rparr>"
proof -
  have ne: "twoHunks \<noteq> []" by (simp add: twoHunks_def)
  have hunks: "\<forall>p \<in> set twoHunks. safeHunk p" by (simp add: twoHunks_def safeHunk_def)
  have l: "safeLine 3" "safeLine 4" "safeLine 8" "safeLine 22" "safeLine 12" "safeLine 15"
    by (simp_all add: safeLine_def)
  have one: "mapReviewToPatch (map jsPatch twoHunks) (jsReview 3 4 ''c'')
     = Inr (jsReview 3 4 ''c'')"
    using C4_mapReviewToPatch [OF ne hunks l(1) l(2), of "''c''"]
    by (auto simp: twoHunks_def intersection_def)
  have two: "mapReviewToPatch (map jsPatch twoHunks) (jsReview 8 22 ''c'')
     = Inr (jsReview 1 10 (greatestOverlapNote (Fin 8) (Fin 22) @ ''c''))"
    using C4_mapReviewToPatch [OF ne hunks l(3) l(4), of "''c''"]
    by (auto simp: twoHunks_def intersection_def Cons_eq_append_conv)
  have three: "mapReviewToPatch (map jsPatch twoHunks) (jsReview 12 15 ''c'')
     = Inr (jsReview 1 10 (noOverlapNote (Fin 12) (Fin 15) @ ''c''))"
    using C4_mapReviewToPatch [OF ne hunks l(5) l(6), of "''c''"]
    by (auto simp: twoHunks_def intersection_def)
  from one two three show ?thesis
    by (simp add: jsReview_def greatestOverlapNote_def noOverlapNote_def originalLines_def
        numToString_lines del: numToString.simps)
qed


section \<open>Token budget packer\<close>

text \<open>
  Claim C2 fails on the code.  With a limit of 10 tokens and 8 base tokens the hunk
  \<open>hu\<close> of 2 tokens fits, so \<^verbatim>\<open>calculatePatchesToPack\<close> allows one patch.  Its thread
  of 10 tokens does not fit the remaining budget, yet the request body holds the hunk
  followed by the comment-chain section with the thread in it: the branch that should
  drop the thread is empty.
\<close>

theorem C2_thread_over_budget_is_kept:
  "calculatePatchesToPack tightEnv [(Fin 1, Fin 3, ''hu'')] 8 = 1 \<and>
   8 + getTokenCount tightEnv ''old thread'' > requestTokens tightEnv \<and>
   packPatchesIntoInputs tightEnv [] [(Fin 1, Fin 3, ''hu'')] 1 8 =
     (1, patchSection ''hu'' @ commentChainSection ''old thread'' @ endChangeSection)"
  by (simp add: calculatePatchesToPack_def packPatchesIntoInputs_def packBody_def tightEnv_def)

section \<open>Patch decomposer: parsePatch\<close>

lemma keptLines_snoc:
  "keptLines (ls @ [x]) =
     keptLines ls @ (if startsWith x minusSign then [] else [(Suc (length ls), x)])"
proof -
  have upt: "[1 ..< Suc (Suc (length ls))] = [1 ..< Suc (length ls)] @ [Suc (length ls)]"
    by simp
  have "zip ([1 ..< Suc (length ls)] @ [Suc (length ls)]) (ls @ [x])
      = zip [1 ..< Suc (length ls)] ls @ zip [Suc (length ls)] [x]"
    by (rule zip_append) (simp del: upt_Suc)
  then have "zip [1 ..< Suc (length (ls @ [x]))] (ls @ [x])
      = zip [1 ..< Suc (length ls)] ls @ [(Suc (length ls), x)]"
    by (simp only: upt length_append_singleton zip_Cons_Cons zip_Nil)
  then show ?thesis
    unfolding keptLines_def by (simp only: filter_append) simp
qed

lemma expectedNew_snoc:
  "expectedNew ro n start (ls @ [x]) =
     expectedNew ro n start ls @
       (if startsWith x minusSign then []
        else [renderNew ro n start (length (keptLines ls), Suc (length ls), x)])"
  by (simp add: expectedNew_def keptLines_snoc enumerate_append_eq)

lemma expectedOld_snoc:
  "expectedOld (ls @ [x]) =
     expectedOld ls @
       (if startsWith x minusSign then [drop 1 x]
        else if startsWith x plusSign then [] else [x])"
  by (simp add: expectedOld_def)

lemma minus_not_plus: "startsWith x minusSign \<Longrightarrow> \<not> startsWith x plusSign"
  by (cases x) (simp_all add: startsWith_def minusSign_def plusSign_def)

lemma foldl_renderLine:
  "0 \<le> start \<Longrightarrow> start + int (length (keptLines ls)) \<le> 2 ^ 53 \<Longrightarrow>
   foldl (renderLine ro (int n))
     \<lparr> currentLine = 0, newLine = Fin start, oldHunkLines = [], newHunkLines = [] \<rparr> ls =
   \<lparr> currentLine = int (length ls),
     newLine = Fin (start + int (length (keptLines ls))),
     oldHunkLines = expectedOld ls,
     newHunkLines = expectedNew ro n start ls \<rparr>"
proof (induction ls rule: rev_induct)
  case Nil
  then show ?case by (simp add: keptLines_def expectedOld_def expectedNew_def)
next
  case (snoc x ls)
  let ?st = "\<lparr> currentLine = int (length ls),
     newLine = Fin (start + int (length (keptLines ls))),
     oldHunkLines = expectedOld ls,
     newHunkLines = expectedNew ro n start ls \<rparr>"
  from snoc.prems have bound: "start + int (length (keptLines ls)) \<le> 2 ^ 53"
    by (simp add: keptLines_snoc split: if_splits)
  have step: "foldl (renderLine ro (int n))
     \<lparr> currentLine = 0, newLine = Fin start, oldHunkLines = [], newHunkLines = [] \<rparr> (ls @ [x])
     = renderLine ro (int n) ?st x"
    by (simp add: snoc.IH [OF snoc.prems(1) bound])
  show ?case
  proof (cases "startsWith x minusSign")
    case True
    then show ?thesis
      unfolding step
      by (simp add: renderLine_def keptLines_snoc expectedNew_snoc expectedOld_snoc)
  next
    case notminus: False
    with snoc.prems have next_ok:
      "\<bar>start + int (length (keptLines ls)) + 1\<bar> \<le> 2 ^ 53"
      by (simp add: keptLines_snoc)
    have incr: "jsAdd (Fin (start + int (length (keptLines ls)))) (Fin 1)
        = Fin (start + int (length (keptLines ls)) + 1)"
      by (rule jsAdd_exact [OF next_ok])
    show ?thesis
    proof (cases "startsWith x plusSign")
      case True
      with notminus show ?thesis
        unfolding step
        by (simp add: renderLine_def keptLines_snoc expectedNew_snoc expectedOld_snoc
            renderNew_def incr del: jsAdd.simps)
    next
      case False
      with notminus show ?thesis
        unfolding step
        by (simp add: renderLine_def keptLines_snoc expectedNew_snoc expectedOld_snoc
            renderNew_def skipStart_def skipEnd_def incr del: jsAdd.simps)
    qed
  qed
qed

lemma digitsValue_nonneg:
  "\<forall>c \<in> set ds. isDigit c \<Longrightarrow> 0 \<le> digitsValue ds"
proof -
  have "0 \<le> n \<Longrightarrow> \<forall>c \<in> set ds. isDigit c
      \<Longrightarrow> 0 \<le> foldl (\<lambda>n c. 10 * n + (int c - 48)) n ds" for n
    by (induction ds arbitrary: n) (auto simp: isDigit_def)
  then show "\<forall>c \<in> set ds. isDigit c \<Longrightarrow> 0 \<le> digitsValue ds"
    by (simp add: digitsValue_def)
qed

lemma roundMagnitude_nonneg: "0 \<le> n \<Longrightarrow> 0 \<le> roundMagnitude n"
  by (simp add: roundMagnitude_def Let_def pos_imp_zdiv_nonneg_iff)

lemma toDouble_nonneg: "0 \<le> x \<Longrightarrow> toDouble x = Fin k \<Longrightarrow> 0 \<le> k"
  using roundMagnitude_nonneg [of x]
  by (auto simp: toDouble_def Let_def split: if_splits)

lemma headerMatches_digits:
  assumes "headerMatches patch = (g2, g3, g4, g5, rest) # ms"
  shows "\<forall>c \<in> set g4. isDigit c"
proof -
  from assms have "(g2, g3, g4, g5, rest) \<in> set (headerMatches patch)" by simp
  then obtain i where "matchHeader (drop i patch) = Some (g2, g3, g4, g5, rest)"
    by (auto simp: headerMatches_def map_filter_def simp del: upt_Suc split: if_splits)
  then obtain s5 s6 where "digits s5 = Some (g4, s6)"
    by (auto simp: matchHeader_def split: Option.bind_splits)
  from digits_Some [OF this] show ?thesis by simp
qed

text \<open>
  Claim C5, amended.  Take a hunk whose first header match has the digits \<open>g4\<close> as
  its fourth group (the number after \<open>+\<close>), let \<^verbatim>\<open>parseInt\<close> read them as the integer
  \<open>newStart\<close>, and let \<open>newStart\<close> plus the number of added and context lines of the
  body be at most \<open>2 ^ 53\<close>.  Then \<^const>\<open>parsePatch\<close> returns the two texts described
  line by line.  The new text has one entry for each added or context line of the body,
  in order, and the \<open>j\<close>-th entry (from 0) carries the number \<open>newStart + j\<close>: the
  counter starts at the hunk's new start and grows by exactly 1 per added or context
  line.  An added line is always numbered; a context line is numbered exactly when the
  hunk has no added line or the line's 1-based position in the body is beyond the first
  3 and before the last 3 positions, and appears as it is otherwise.  A removed line
  appears in the old text only, without number, as do the context lines.
\<close>

theorem C5_parsePatch:
  assumes header: "headerMatches patch = (g2, g3, g4, g5, rest) # ms"
    and start: "parseInt g4 = Fin newStart"
    and bound: "newStart + int (length (keptLines (bodyLines patch))) \<le> 2 ^ 53"
  shows "parsePatch patch =
     Some (joinNewline (expectedOld (bodyLines patch)),
           joinNewline
             (expectedNew (\<not> list_ex (\<lambda>line. startsWith line plusSign) (bodyLines patch))
                (length (bodyLines patch)) newStart (bodyLines patch)))"
proof -
  have "0 \<le> digitsValue g4"
    by (rule digitsValue_nonneg [OF headerMatches_digits [OF header]])
  with start have nonneg: "0 \<le> newStart"
    unfolding parseInt_def using toDouble_nonneg by blast
  show ?thesis
    using start
    by (simp add: parsePatch_def patchStartEndLine_def header Let_def
        foldl_renderLine [OF nonneg bound])
qed


lemma sampleHunk_units: "sampleHunk = [64, 64, 32, 45, 51, 44, 56, 32, 43, 53, 44, 56, 32, 64, 64, 32, 102, 10, 32, 97, 10, 32, 98, 10, 32, 99, 10, 32, 100, 10, 45, 120, 10, 43, 121, 10, 32, 101, 10, 32, 102, 10, 32, 103, 10]"
  by (simp add: sampleHunk_def ustr_def)

lemma sampleHunk_header: "matchHeader sampleHunk = Some ([51], [56], [53], [56], [32, 102, 10, 32, 97, 10, 32, 98, 10, 32, 99, 10, 32, 100, 10, 45, 120, 10, 43, 121, 10, 32, 101, 10, 32, 102, 10, 32, 103, 10])"
  unfolding sampleHunk_units by (simp add: matchHeader_def ustr_def digits_def isDigit_def)

lemma sampleHunk_body: "bodyLines sampleHunk = [[32, 97], [32, 98], [32, 99], [32, 100], [45, 120], [43, 121], [32, 101], [32, 102], [32, 103]]"
  unfolding sampleHunk_units by (simp add: bodyLines_def)

lemma sampleHunk_old: "joinNewline (expectedOld (bodyLines sampleHunk)) =
      joinNewline [ustr '' a'', ustr '' b'', ustr '' c'', ustr '' d'', ustr ''x'',
                   ustr '' e'', ustr '' f'', ustr '' g'']"
  unfolding sampleHunk_body by (simp add: expectedOld_def startsWith_def minusSign_def plusSign_def ustr_def)

lemma sampleHunk_numbered:
  "numbered (Fin 8) [32, 100] = ustr ''8:  d''" "numbered (Fin 9) [121] = ustr ''9: y''"
  by code_simp+

lemma headerMatches_at_start:
  assumes "matchHeader patch = Some m"
  shows "\<exists>ms. headerMatches patch = m # ms"
proof -
  have "[0 ..< Suc (length patch)] = 0 # [1 ..< Suc (length patch)]"
    by (simp add: upt_conv_Cons del: upt_Suc)
  then show ?thesis
    using assms by (simp add: headerMatches_def map_filter_simps atLineStart_def del: upt_Suc)
qed

lemma patchStartEndLine_at_start:
  assumes "matchHeader patch = Some (g2, g3, g4, g5, rest)"
  shows "patchStartEndLine patch =
           Some \<lparr> oldHunk = (parseInt g2, jsSub (jsAdd (parseInt g2) (parseInt g3)) (Fin 1)),
                  newHunk = (parseInt g4, jsSub (jsAdd (parseInt g4) (parseInt g5)) (Fin 1)) \<rparr>"
  using headerMatches_at_start [OF assms]
  by (auto simp: patchStartEndLine_def Let_def)

lemma parseInt_small:
  "parseInt [51] = Fin 3" "parseInt [53] = Fin 5" "parseInt [56] = Fin 8"
  by (simp_all add: parseInt_def digitsValue_def toDouble_exact)

text \<open>
  Claim C5 on a hunk of nine body lines, for lines 3 to 10 of the old file and lines 5 to
  12 of the new one: the three context lines at each end are not numbered, the fourth
  line is numbered 8 and the added line 9, counted from the new start 5, and the removed
  line is in the old text only.
\<close>

theorem C5_parsePatch_witness:
  "patchStartEndLine sampleHunk
     = Some \<lparr> oldHunk = (Fin 3, Fin 10), newHunk = (Fin 5, Fin 12) \<rparr> \<and>
   parsePatch sampleHunk =
     Some (joinNewline [ustr '' a'', ustr '' b'', ustr '' c'', ustr '' d'', ustr ''x'',
                        ustr '' e'', ustr '' f'', ustr '' g''],
           joinNewline [ustr '' a'', ustr '' b'', ustr '' c'', ustr ''8:  d'', ustr ''9: y'',
                        ustr '' e'', ustr '' f'', ustr '' g''])"
proof -
  have h: "patchStartEndLine sampleHunk
     = Some \<lparr> oldHunk = (Fin 3, Fin 10), newHunk = (Fin 5, Fin 12) \<rparr>"
    unfolding patchStartEndLine_at_start [OF sampleHunk_header]
    by (simp add: parseInt_small jsSub_def toDouble_exact)
  from headerMatches_at_start [OF sampleHunk_header] obtain ms where
    hm: "headerMatches sampleHunk = ([51], [56], [53], [56], [32, 102, 10, 32, 97, 10, 32, 98, 10, 32, 99, 10, 32, 100, 10, 45, 120, 10, 43, 121, 10, 32, 101, 10, 32, 102, 10, 32, 103, 10]) # ms"
    by blast
  have ro: "list_ex (\<lambda>line. startsWith line plusSign) (bodyLines sampleHunk)"
    unfolding sampleHunk_body by (simp add: startsWith_def plusSign_def)
  have kept: "keptLines (bodyLines sampleHunk) =
      [(1, [32, 97]), (2, [32, 98]), (3, [32, 99]), (4, [32, 100]), (6, [43, 121]),
       (7, [32, 101]), (8, [32, 102]), (9, [32, 103])]"
    unfolding sampleHunk_body by (simp add: keptLines_def startsWith_def minusSign_def upt_conv_Cons del: upt_Suc)
  have bound: "5 + int (length (keptLines (bodyLines sampleHunk))) \<le> 2 ^ 53"
    unfolding kept by simp
  have new: "joinNewline
      (expectedNew (\<not> list_ex (\<lambda>line. startsWith line plusSign) (bodyLines sampleHunk))
         (length (bodyLines sampleHunk)) 5 (bodyLines sampleHunk)) =
      joinNewline [ustr '' a'', ustr '' b'', ustr '' c'', ustr ''8:  d'', ustr ''9: y'',
                   ustr '' e'', ustr '' f'', ustr '' g'']"
    unfolding expectedNew_def kept
    by (simp add: ro renderNew_def startsWith_def plusSign_def sampleHunk_numbered) (simp add: sampleHunk_body ustr_def)
  from C5_parsePatch [OF hm parseInt_small(2) bound] sampleHunk_old new h show ?thesis by simp
qed

lemma limitHunk_units: "limitHunk = [64, 64, 32, 45, 57, 48, 48, 55, 49, 57, 57, 50, 53, 52, 55, 52, 48, 57, 57, 49, 44, 48, 32, 43, 57, 48, 48, 55, 49, 57, 57, 50, 53, 52, 55, 52, 48, 57, 57, 50, 44, 50, 32, 64, 64, 10, 43, 97, 10, 43, 98]"
  by (simp add: limitHunk_def ustr_def)

lemma limitHunk_header: "matchHeader limitHunk = Some ([57, 48, 48, 55, 49, 57, 57, 50, 53, 52, 55, 52, 48, 57, 57, 49], [48], [57, 48, 48, 55, 49, 57, 57, 50, 53, 52, 55, 52, 48, 57, 57, 50], [50], [10, 43, 97, 10, 43, 98])"
  unfolding limitHunk_units by (simp add: matchHeader_def ustr_def digits_def isDigit_def)

lemma limitHunk_body: "bodyLines limitHunk = [[43, 97], [43, 98]]"
  unfolding limitHunk_units by (simp add: bodyLines_def)

lemma parseInt_limit: "parseInt [57, 48, 48, 55, 49, 57, 57, 50, 53, 52, 55, 52, 48, 57, 57, 50] = Fin 9007199254740992"
  by (simp add: parseInt_def digitsValue_def toDouble_exact)

lemma numToString_limit: "numToString (Fin 9007199254740992) = ''9007199254740992''"
  by code_simp

text \<open>
  Claim C5 as stated fails at the limit of the safe integers.  In a hunk whose new start
  is \<open>2 ^ 53 = 9007199254740992\<close> the first added line is numbered 9007199254740992,
  and so is the second: the counter is a double, and \<open>2 ^ 53 + 1\<close> is rounded back to
  \<open>2 ^ 53\<close>, so it does not increase by 1.
\<close>

theorem C5_parsePatch_counterexample:
  "parseInt (ustr ''9007199254740992'') = Fin 9007199254740992 \<and>
   parsePatch limitHunk =
     Some ([], ustr ''9007199254740992: a'' @ [10] @ ustr ''9007199254740992: b'')"
proof -
  have start: "parseInt (ustr ''9007199254740992'') = Fin 9007199254740992"
    using parseInt_limit by (simp add: ustr_def)
  have h: "patchStartEndLine limitHunk = Some \<lparr> oldHunk = (parseInt [57, 48, 48, 55, 49, 57, 57, 50, 53, 52, 55, 52, 48, 57, 57, 49], jsSub (jsAdd (parseInt [57, 48, 48, 55, 49, 57, 57, 50, 53, 52, 55, 52, 48, 57, 57, 49]) (parseInt [48])) (Fin 1)),
         newHunk = (Fin 9007199254740992, jsSub (jsAdd (Fin 9007199254740992) (parseInt [50])) (Fin 1)) \<rparr>"
    unfolding patchStartEndLine_at_start [OF limitHunk_header] parseInt_limit by simp
  have "parsePatch limitHunk =
     Some ([], ustr ''9007199254740992: a'' @ [10] @ ustr ''9007199254740992: b'')"
    unfolding parsePatch_def h limitHunk_body
    by (simp add: renderLine_def startsWith_def plusSign_def minusSign_def numbered_def
        numToString_limit toDouble_above_limit ustr_def del: numToString.simps)
  with start show ?thesis by simp
qed

section \<open>Patch decomposer: splitPatch\<close>

lemma matchesFrom_matchStarts:
  "matchesFrom s k = map (\<lambda>i. (i, the (matchAt s i))) (matchStarts s k)"
  by (auto simp: matchesFrom_def matchStarts_def map_filter_def)

lemma exec_None: "exec s k = None \<longleftrightarrow> matchStarts s k = []"
  by (cases "matchStarts s k") (simp_all add: exec_def matchesFrom_matchStarts)

lemma matchAt_no_terminator:
  assumes "matchAt s i = Some e" "i \<le> j" "j < e"
  shows "\<not> isLineTerminator (s ! j)"
proof -
  let ?N = "\<lambda>c. \<not> isLineTerminator c"
  from assms(1) obtain g2 g3 g4 g5 r where
    h: "matchHeader (drop i s) = Some (g2, g3, g4, g5, r)"
    and e: "e = length s - length (dropWhile ?N r)"
    by (auto simp: matchAt_def split: if_splits option.splits)
  from matchHeader_Some [OF h] obtain w where
    w: "drop i s = w @ r" and wN: "\<forall>c \<in> set w. ?N c" by blast
  have len: "length s - i = length w + length r"
    using w by (metis length_append length_drop)
  have "length (takeWhile ?N r) + length (dropWhile ?N r) = length r"
    by (metis length_append takeWhile_dropWhile_id)
  with e len have ei: "e - i = length w + length (takeWhile ?N r)" by linarith
  have split: "drop i s = (w @ takeWhile ?N r) @ dropWhile ?N r"
    using w by simp
  have ji: "j - i < length (w @ takeWhile ?N r)" using assms(2,3) ei by simp
  have "i + (j - i) < length s" using assms(2,3) matchAt_Some [OF assms(1)] by linarith
  then have "s ! j = drop i s ! (j - i)" using assms(2) by simp
  also have "\<dots> = (w @ takeWhile ?N r) ! (j - i)"
    unfolding split using ji by (simp only: nth_append if_True)
  finally have "s ! j \<in> set (w @ takeWhile ?N r)" using ji nth_mem by metis
  then show ?thesis using wN by (auto dest: set_takeWhileD)
qed

lemma matchStarts_skip:
  assumes "matchAt s i = Some e"
  shows "matchStarts s (Suc i) = matchStarts s e"
proof -
  from matchAt_Some [OF assms] have ie: "i < e" "e \<le> length s" by simp_all
  have none: "matchAt s j = None" if "Suc i \<le> j" "j < e" for j
  proof -
    have "\<not> isLineTerminator (s ! (j - 1))"
      using matchAt_no_terminator [OF assms, of "j - 1"] that by simp
    with that show ?thesis by (simp add: matchAt_def atLineStart_def)
  qed
  have "[Suc i ..< Suc (length s)] = [Suc i ..< e] @ [e ..< Suc (length s)]"
    using ie upt_add_eq_append [of "Suc i" e "Suc (length s) - e"] by simp
  moreover have "filter (\<lambda>i. matchAt s i \<noteq> None) [Suc i ..< e] = []"
    using none by (auto simp: filter_empty_conv)
  ultimately show ?thesis by (simp add: matchStarts_def)
qed

lemma exec_Some_matchStarts:
  assumes "exec s k = Some (i, e)"
  shows "matchStarts s k = i # matchStarts s e \<and> matchAt s i = Some e"
proof -
  from assms obtain is' where ms: "matchStarts s k = i # is'" and e: "e = the (matchAt s i)"
    by (auto simp: exec_def matchesFrom_matchStarts split: list.splits)
  from ms have "i \<in> set (matchStarts s k)" by simp
  then have m: "matchAt s i = Some e" using e by (auto simp: matchStarts_def)
  from exec_Some [OF assms] have ki: "k \<le> i" "i \<le> length s" by simp_all
  have "[k ..< Suc (length s)] = [k ..< i] @ i # [Suc i ..< Suc (length s)]"
    using ki upt_add_eq_append [of k i "Suc (length s) - i"]
    by (simp add: upt_conv_Cons del: upt_Suc)
  then have "matchStarts s k =
      filter (\<lambda>i. matchAt s i \<noteq> None) [k ..< i] @ i # matchStarts s (Suc i)"
    using m by (simp add: matchStarts_def)
  moreover have "filter (\<lambda>i. matchAt s i \<noteq> None) [k ..< i] = []"
  proof (rule ccontr)
    assume "filter (\<lambda>i. matchAt s i \<noteq> None) [k ..< i] \<noteq> []"
    then obtain j js where "filter (\<lambda>i. matchAt s i \<noteq> None) [k ..< i] = j # js"
      by (cases "filter (\<lambda>i. matchAt s i \<noteq> None) [k ..< i]") auto
    with \<open>matchStarts s k = _ @ i # _\<close> ms have "i = j" by simp
    moreover from \<open>filter _ [k ..< i] = j # js\<close> have "j \<in> set (filter (\<lambda>i. matchAt s i \<noteq> None) [k ..< i])"
      by simp
    ultimately show False by simp
  qed
  ultimately show ?thesis using m matchStarts_skip [OF m] by simp
qed

lemma substring_between:
  "l \<le> i \<Longrightarrow> i \<le> length s \<Longrightarrow> substring s (int l) (int i) = take (i - l) (drop l s)"
  by (simp add: substring_def clampIndex_def Let_def min_def max_def)

lemma substringFrom_drop: "l \<le> length s \<Longrightarrow> substringFrom s (int l) = drop l s"
  by (simp add: substringFrom_def substring_between)

lemma pieces_length: "length (pieces s ps) = length ps"
  by (induction s ps rule: pieces.induct) simp_all

lemma pieces_Nil: "pieces s ps = [] \<longleftrightarrow> ps = []"
  using pieces_length [of s ps] by (metis length_0_conv)

lemma pieces_last: "ps \<noteq> [] \<Longrightarrow> last (pieces s ps) = drop (last ps) s"
  by (induction s ps rule: pieces.induct) (simp_all add: pieces_Nil)

lemma pieces_butlast_Cons:
  "ps \<noteq> [] \<Longrightarrow> butlast (pieces s (l # ps)) = take (hd ps - l) (drop l s) # butlast (pieces s ps)"
  by (cases ps) (simp_all add: pieces_Nil)

lemma pieces_concat:
  "sorted ps \<Longrightarrow> ps \<noteq> [] \<Longrightarrow> concat (pieces s ps) = drop (hd ps) s"
proof (induction s ps rule: pieces.induct)
  case (3 s i j js)
  then have ij: "i \<le> j" by simp
  have "take (j - i) (drop i s) @ drop j s = drop i s"
  proof -
    have "drop j s = drop (j - i) (drop i s)" using ij by simp
    then show ?thesis by (simp only: append_take_drop_id)
  qed
  with 3 show ?case by simp
qed simp_all

lemma splitLoop_eq:
  "(lst = -1 \<longrightarrow>
      splitLoop s k lst result =
        (if matchStarts s k = [] then (-1, result)
         else (int (last (matchStarts s k)), result @ butlast (pieces s (matchStarts s k))))) \<and>
   (\<forall>l. lst = int l \<and> l < k \<longrightarrow>
      splitLoop s k lst result =
        (int (last (l # matchStarts s k)), result @ butlast (pieces s (l # matchStarts s k))))"
proof (induction s k lst result rule: splitLoop.induct)
  case (1 patch lastIndex lst result)
  show ?case
  proof (cases "exec patch lastIndex")
    case None
    then have "matchStarts patch lastIndex = []" by (simp add: exec_None)
    with None show ?thesis by (simp add: splitLoop.simps [of patch lastIndex])
  next
    case (Some m)
    obtain i e where m: "m = (i, e)" by (cases m)
    with Some have ex: "exec patch lastIndex = Some (i, e)" by simp
    from exec_Some_matchStarts [OF ex]
    have ms: "matchStarts patch lastIndex = i # matchStarts patch e" by simp
    from exec_Some [OF ex] have ord: "lastIndex \<le> i" "i < e" "e \<le> length patch" by simp_all
    show ?thesis
    proof (intro conjI impI allI)
      assume neg: "lst = -1"
      from "1.IH"(1) [OF Some m [symmetric] neg]
      have "splitLoop patch e (int i) result =
          (int (last (i # matchStarts patch e)),
           result @ butlast (pieces patch (i # matchStarts patch e)))"
        using ord by simp
      then show "splitLoop patch lastIndex lst result =
        (if matchStarts patch lastIndex = [] then (-1, result)
         else (int (last (matchStarts patch lastIndex)),
               result @ butlast (pieces patch (matchStarts patch lastIndex))))"
        using ex neg ms by (simp add: splitLoop.simps [of patch lastIndex])
    next
      fix l
      assume l: "lst = int l \<and> l < lastIndex"
      then have nn: "lst \<noteq> -1" by simp
      from "1.IH"(2) [OF Some m [symmetric] nn]
      have "splitLoop patch e (int i) (result @ [substring patch lst (int i)]) =
          (int (last (i # matchStarts patch e)),
           (result @ [substring patch lst (int i)])
             @ butlast (pieces patch (i # matchStarts patch e)))"
        using ord by simp
      moreover have "substring patch lst (int i) = take (i - l) (drop l patch)"
        using l ord by (simp add: substring_between)
      moreover have "butlast (pieces patch (l # i # matchStarts patch e)) =
          take (i - l) (drop l patch) # butlast (pieces patch (i # matchStarts patch e))"
        using pieces_butlast_Cons [of "i # matchStarts patch e" patch l] by simp
      ultimately show "splitLoop patch lastIndex lst result =
        (int (last (l # matchStarts patch lastIndex)),
         result @ butlast (pieces patch (l # matchStarts patch lastIndex)))"
        using ex nn ms by (simp add: splitLoop.simps [of patch lastIndex])
    qed
  qed
qed

lemma matchStarts_le: "i \<in> set (matchStarts s k) \<Longrightarrow> i \<le> length s"
  by (auto simp: matchStarts_def)

lemma sorted_matchStarts: "sorted (matchStarts s k)"
  unfolding matchStarts_def by (rule sorted_wrt_filter) (rule sorted_upt)

lemma splitPatch_pieces: "splitPatch (Some s) = pieces s (matchStarts s 0)"
proof (cases "matchStarts s 0 = []")
  case True
  with splitLoop_eq [of "-1" s 0 "[]"] show ?thesis
    by (simp add: splitPatch_def)
next
  case False
  then have "last (matchStarts s 0) \<in> set (matchStarts s 0)" by simp
  then have le: "last (matchStarts s 0) \<le> length s" by (rule matchStarts_le)
  have "pieces s (matchStarts s 0) \<noteq> []" using False by (simp add: pieces_Nil)
  then have "butlast (pieces s (matchStarts s 0)) @ [drop (last (matchStarts s 0)) s]
      = pieces s (matchStarts s 0)"
    using pieces_last [OF False, of s] by (metis append_butlast_last_id)
  with splitLoop_eq [of "-1" s 0 "[]"] False le show ?thesis
    by (simp add: splitPatch_def substringFrom_drop)
qed

lemma lit_takeWhile:
  "\<forall>c \<in> set p. \<not> isLineTerminator c \<Longrightarrow>
     lit p (takeWhile (\<lambda>c. \<not> isLineTerminator c) s)
       = map_option (takeWhile (\<lambda>c. \<not> isLineTerminator c)) (lit p s)"
  by (induction p s rule: lit.induct) auto

lemma takeWhile_digits_line:
  "takeWhile isDigit (takeWhile (\<lambda>c. \<not> isLineTerminator c) s) = takeWhile isDigit s"
  by (induction s) (auto dest: isDigit_not_terminator)

lemma dropWhile_digits_line:
  "dropWhile isDigit (takeWhile (\<lambda>c. \<not> isLineTerminator c) s)
     = takeWhile (\<lambda>c. \<not> isLineTerminator c) (dropWhile isDigit s)"
  by (induction s) (auto dest: isDigit_not_terminator)

lemma digits_takeWhile:
  "digits (takeWhile (\<lambda>c. \<not> isLineTerminator c) s)
     = map_option (\<lambda>(d, r). (d, takeWhile (\<lambda>c. \<not> isLineTerminator c) r)) (digits s)"
  by (simp add: digits_def Let_def takeWhile_digits_line dropWhile_digits_line)

lemma literal_no_terminator:
  "\<forall>c \<in> set (ustr ''@@ -''). \<not> isLineTerminator c"
  "\<forall>c \<in> set (ustr '',''). \<not> isLineTerminator c"
  "\<forall>c \<in> set (ustr '' +''). \<not> isLineTerminator c"
  "\<forall>c \<in> set (ustr '' @@''). \<not> isLineTerminator c"
  by (simp_all add: ustr_def isLineTerminator_def)

lemma matchHeader_takeWhile:
  "matchHeader (takeWhile (\<lambda>c. \<not> isLineTerminator c) s)
     = map_option (\<lambda>(g2, g3, g4, g5, r). (g2, g3, g4, g5, takeWhile (\<lambda>c. \<not> isLineTerminator c) r))
         (matchHeader s)"
  unfolding matchHeader_def
  by (simp add: lit_takeWhile literal_no_terminator digits_takeWhile
      split: Option.bind_split prod.splits)

lemma isHeaderLine_firstLine:
  "isHeaderLine (takeWhile (\<lambda>c. \<not> isLineTerminator c) s) = (matchHeader s \<noteq> None)"
  by (simp add: isHeaderLine_def matchHeader_takeWhile)

lemma jsLines_nonempty: "jsLines s \<noteq> []"
  by (induction s) (auto split: list.splits)

lemma hd_jsLines: "hd (jsLines s) = takeWhile (\<lambda>c. \<not> isLineTerminator c) s"
  by (induction s) (auto split: list.splits simp: jsLines_nonempty)

lemma matchHeader_Nil: "matchHeader [] = None"
  by (simp add: matchHeader_def ustr_def)

lemma matchHeader_terminator: "isLineTerminator c \<Longrightarrow> matchHeader (c # cs) = None"
  by (auto simp: matchHeader_def ustr_def isLineTerminator_def)

lemma count_positions:
  "length (filter (\<lambda>i. (if i = 0 then b else isLineTerminator (s ! (i - 1)))
                          \<and> matchHeader (drop i s) \<noteq> None) [0 ..< Suc (length s)])
   = (if b \<and> isHeaderLine (hd (jsLines s)) then 1 else 0)
       + length (filter isHeaderLine (tl (jsLines s)))"
proof (induction s arbitrary: b)
  case Nil
  then show ?case by (simp add: matchHeader_Nil isHeaderLine_def)
next
  case (Cons c cs)
  define P where "P = (\<lambda>b (s :: ustring) i.
      (if i = 0 then b else isLineTerminator (s ! (i - 1))) \<and> matchHeader (drop i s) \<noteq> None)"
  have "[0 ..< Suc (Suc (length cs))] = 0 # [Suc 0 ..< Suc (Suc (length cs))]"
    by (rule upt_conv_Cons) simp
  then have upt: "[0 ..< Suc (length (c # cs))] = 0 # map Suc [0 ..< Suc (length cs)]"
    by (simp only: map_Suc_upt length_Cons)
  have shift: "P b (c # cs) (Suc i) = P (isLineTerminator c) cs i" for i
    by (cases i) (simp_all add: P_def)
  have zero: "P b (c # cs) 0 = (b \<and> matchHeader (c # cs) \<noteq> None)"
    by (simp add: P_def)
  have tail: "filter (P b (c # cs)) (map Suc xs) = map Suc (filter (P (isLineTerminator c) cs) xs)"
    for xs
    by (induction xs) (simp_all add: shift)
  have "length (filter (P b (c # cs)) [0 ..< Suc (length (c # cs))])
      = (if b \<and> matchHeader (c # cs) \<noteq> None then 1 else 0)
          + length (filter (P (isLineTerminator c) cs) [0 ..< Suc (length cs)])"
    unfolding upt by (simp only: filter.simps zero tail length_map split: if_splits) simp
  also have "length (filter (P (isLineTerminator c) cs) [0 ..< Suc (length cs)])
      = (if isLineTerminator c \<and> isHeaderLine (hd (jsLines cs)) then 1 else 0)
          + length (filter isHeaderLine (tl (jsLines cs)))"
    unfolding P_def by (rule Cons.IH)
  finally have eq: "length (filter (\<lambda>i. (if i = 0 then b else isLineTerminator ((c # cs) ! (i - 1)))
                          \<and> matchHeader (drop i (c # cs)) \<noteq> None) [0 ..< Suc (length (c # cs))])
      = (if b \<and> matchHeader (c # cs) \<noteq> None then 1 else 0)
          + ((if isLineTerminator c \<and> isHeaderLine (hd (jsLines cs)) then 1 else 0)
          + length (filter isHeaderLine (tl (jsLines cs))))"
    unfolding P_def .
  obtain l ls where ls: "jsLines cs = l # ls"
    using jsLines_nonempty [of cs] by (cases "jsLines cs") auto
  have first: "isHeaderLine (hd (jsLines (c # cs))) = (matchHeader (c # cs) \<noteq> None)"
    unfolding hd_jsLines by (rule isHeaderLine_firstLine)
  show ?case
  proof (cases "isLineTerminator c")
    case True
    then have "matchHeader (c # cs) = None" by (rule matchHeader_terminator)
    with True first ls show ?thesis unfolding eq by simp
  next
    case False
    with first ls show ?thesis unfolding eq by simp
  qed
qed

lemma matchAt_None_iff:
  "i \<le> length s \<Longrightarrow>
     (matchAt s i \<noteq> None)
       = ((if i = 0 then True else isLineTerminator (s ! (i - 1))) \<and> matchHeader (drop i s) \<noteq> None)"
  by (auto simp: matchAt_def atLineStart_def split: option.splits)

lemma headerStarts_matchStarts: "headerStarts s = matchStarts s 0"
  by (simp add: headerStarts_def matchStarts_def)

lemma length_headerStarts:
  "length (headerStarts s) = length (filter isHeaderLine (jsLines s))"
proof -
  have "filter (\<lambda>i. matchAt s i \<noteq> None) [0 ..< Suc (length s)]
      = filter (\<lambda>i. (if i = 0 then True else isLineTerminator (s ! (i - 1)))
                          \<and> matchHeader (drop i s) \<noteq> None) [0 ..< Suc (length s)]"
  proof (rule filter_cong [OF refl])
    fix i
    assume "i \<in> set [0 ..< Suc (length s)]"
    then have "i \<le> length s" by auto
    then show "(matchAt s i \<noteq> None)
       = ((if i = 0 then True else isLineTerminator (s ! (i - 1))) \<and> matchHeader (drop i s) \<noteq> None)"
      by (rule matchAt_None_iff)
  qed
  then have "length (headerStarts s)
      = (if isHeaderLine (hd (jsLines s)) then 1 else 0)
          + length (filter isHeaderLine (tl (jsLines s)))"
    unfolding headerStarts_def using count_positions [of True s] by simp
  also have "\<dots> = length (filter isHeaderLine (hd (jsLines s) # tl (jsLines s)))"
    by simp
  finally show ?thesis using jsLines_nonempty [of s] by simp
qed

text \<open>
  Claim C1, amended.  \<^const>\<open>splitPatch\<close> returns the empty list for a missing patch.  For a
  string it returns as many substrings as the string has lines that begin with a hunk
  header (hence none when there is no such line), and their concatenation is the input
  from the start of its first header line on: whatever precedes the first header is
  dropped, and the concatenation is the whole input when the input begins with a header.
\<close>

theorem C1_splitPatch:
  "splitPatch None = [] \<and>
   length (splitPatch (Some s)) = length (filter isHeaderLine (jsLines s)) \<and>
   concat (splitPatch (Some s)) = (case headerStarts s of [] \<Rightarrow> [] | i # is \<Rightarrow> drop i s) \<and>
   (isHeaderLine (hd (jsLines s)) \<longrightarrow> concat (splitPatch (Some s)) = s) \<and>
   (filter isHeaderLine (jsLines s) = [] \<longrightarrow> splitPatch (Some s) = [])"
proof -
  have none: "splitPatch None = []" by (simp add: splitPatch_def)
  have len: "length (splitPatch (Some s)) = length (filter isHeaderLine (jsLines s))"
    by (simp add: splitPatch_pieces pieces_length length_headerStarts [symmetric]
        headerStarts_matchStarts)
  have cat: "concat (splitPatch (Some s)) = (case headerStarts s of [] \<Rightarrow> [] | i # is \<Rightarrow> drop i s)"
  proof (cases "headerStarts s")
    case Nil
    then show ?thesis by (simp add: splitPatch_pieces headerStarts_matchStarts)
  next
    case (Cons i "is")
    then have "concat (pieces s (matchStarts s 0)) = drop (hd (matchStarts s 0)) s"
      using pieces_concat [OF sorted_matchStarts, of s 0 s]
      by (simp add: headerStarts_matchStarts)
    with Cons show ?thesis by (simp add: splitPatch_pieces headerStarts_matchStarts)
  qed
  have start: "concat (splitPatch (Some s)) = s" if h: "isHeaderLine (hd (jsLines s))"
  proof -
    from h have mh: "matchHeader s \<noteq> None"
      by (simp add: hd_jsLines isHeaderLine_firstLine)
    then have "matchAt s 0 \<noteq> None"
      by (auto simp: matchAt_def atLineStart_def split: option.splits)
    then have "headerStarts s = 0 # filter (\<lambda>i. matchAt s i \<noteq> None) [1 ..< Suc (length s)]"
      unfolding headerStarts_def by (simp add: upt_conv_Cons del: upt_Suc)
    with cat show ?thesis by simp
  qed
  have empty: "splitPatch (Some s) = []" if "filter isHeaderLine (jsLines s) = []"
    using len that by simp
  from none len cat start empty show ?thesis by blast
qed

lemma prefixedDiff_units:
  "prefixedDiff = [120, 10, 64, 64, 32, 45, 49, 44, 49, 32, 43, 49, 44, 49, 32, 64, 64, 10, 43, 97]"
  by (simp add: prefixedDiff_def ustr_def)

lemma twoHunkDiff_units:
  "twoHunkDiff = [64, 64, 32, 45, 49, 44, 49, 32, 43, 49, 44, 49, 32, 64, 64, 10, 43, 97, 10,
     64, 64, 32, 45, 55, 44, 49, 32, 43, 55, 44, 49, 32, 64, 64, 10, 45, 98]"
  by (simp add: twoHunkDiff_def ustr_def)

lemmas header_eval =
  matchHeader_def digits_def isDigit_def isLineTerminator_def ustr_def isHeaderLine_def

lemma prefixedDiff_lines:
  "filter isHeaderLine (jsLines prefixedDiff) = [ustr ''@@ -1,1 +1,1 @@'']"
  unfolding prefixedDiff_units by (simp add: header_eval)

lemma prefixedDiff_starts: "headerStarts prefixedDiff = [2]"
  unfolding prefixedDiff_units headerStarts_def
  by (simp add: matchAt_def atLineStart_def header_eval upt_rec_numeral)

text \<open>
  Claim C1 as stated fails on a diff with a line before its first header: the diff has
  one header line and \<^const>\<open>splitPatch\<close> returns one substring, but the substring starts at
  the header, so the concatenation is not the input.
\<close>

theorem C1_splitPatch_counterexample:
  "length (filter isHeaderLine (jsLines prefixedDiff)) = 1 \<and>
   splitPatch (Some prefixedDiff) = [ustr ''@@ -1,1 +1,1 @@'' @ [10] @ ustr ''+a''] \<and>
   concat (splitPatch (Some prefixedDiff)) \<noteq> prefixedDiff"
proof -
  have "splitPatch (Some prefixedDiff) = pieces prefixedDiff [2]"
    using prefixedDiff_starts by (simp add: splitPatch_pieces headerStarts_matchStarts)
  then have "splitPatch (Some prefixedDiff) = [ustr ''@@ -1,1 +1,1 @@'' @ [10] @ ustr ''+a'']"
    by (simp add: prefixedDiff_units ustr_def)
  then show ?thesis
    by (simp add: prefixedDiff_lines) (simp add: prefixedDiff_units ustr_def)
qed

text \<open>
  Claim C1 on a diff of two hunks that begins with a header: two substrings whose
  concatenation is the diff.
\<close>

theorem C1_splitPatch_witness:
  "isHeaderLine (hd (jsLines twoHunkDiff)) \<and>
   length (splitPatch (Some twoHunkDiff)) = 2 \<and>
   concat (splitPatch (Some twoHunkDiff)) = twoHunkDiff"
proof -
  have h: "isHeaderLine (hd (jsLines twoHunkDiff))"
    unfolding twoHunkDiff_units by (simp add: header_eval)
  have n: "length (filter isHeaderLine (jsLines twoHunkDiff)) = 2"
    unfolding twoHunkDiff_units by (simp add: header_eval)
  from C1_splitPatch [of twoHunkDiff]
  have len: "length (splitPatch (Some twoHunkDiff)) = length (filter isHeaderLine (jsLines twoHunkDiff))"
    and cat: "isHeaderLine (hd (jsLines twoHunkDiff)) \<longrightarrow> concat (splitPatch (Some twoHunkDiff)) = twoHunkDiff"
    by blast+
  from len n cat h show ?thesis by simp
qed

end
